theory Spec2Isabelle
  imports Complex_Main "HOL-Library.Sublist" "HOL-Library.AList_Mapping"
begin

unbundle bit_operations_syntax

section \<open>Python values the optimizer relies on\<close>

text \<open>
  Exceptions are values. \<open>ValueError\<close> is what \<^verbatim>\<open>int\<close> and
  \<^verbatim>\<open>ipaddress.ip_network\<close> raise on text they cannot read, \<open>TypeError\<close> is what
  \<^verbatim>\<open>supernet_of\<close> raises for networks of different IP versions, and
  \<open>AttributeError\<close> is an attribute read on \<^verbatim>\<open>None\<close>.
\<close>

datatype error = ValueError | TypeError | AttributeError

definition bind_result :: "error + 'a \<Rightarrow> ('a \<Rightarrow> error + 'b) \<Rightarrow> error + 'b" where
  "bind_result r f = (case r of Inl e \<Rightarrow> Inl e | Inr v \<Rightarrow> f v)"

text \<open>\<^verbatim>\<open>try: body except ValueError: handler\<close>: only \<open>ValueError\<close> is caught.\<close>

definition except_ValueError :: "error + 'a \<Rightarrow> error + 'a \<Rightarrow> error + 'a" where
  "except_ValueError body handler =
     (case body of Inl ValueError \<Rightarrow> handler | Inl e \<Rightarrow> Inl e | Inr v \<Rightarrow> Inr v)"

text \<open>Truthiness of an optional string: \<^verbatim>\<open>None\<close> and the empty string are falsy.\<close>

definition truthy :: "string option \<Rightarrow> bool" where
  "truthy v = (case v of None \<Rightarrow> False | Some s \<Rightarrow> s \<noteq> [])"

text \<open>\<^verbatim>\<open>v or ""\<close> for an optional string.\<close>

definition or_empty :: "string option \<Rightarrow> string" where
  "or_empty v = (case v of None \<Rightarrow> [] | Some s \<Rightarrow> s)"

text \<open>\<^verbatim>\<open>sep.join(xs)\<close>, \<^verbatim>\<open>s.split(c)\<close> for a one-character separator, and
  \<^verbatim>\<open>p in s\<close> on strings.\<close>

fun join :: "string \<Rightarrow> string list \<Rightarrow> string" where
  "join sep [] = []"
| "join sep [x] = x"
| "join sep (x # y # ys) = x @ sep @ join sep (y # ys)"

fun split_on :: "char \<Rightarrow> string \<Rightarrow> string list" where
  "split_on c [] = [[]]"
| "split_on c (x # xs) =
     (if x = c then [] # split_on c xs
      else (case split_on c xs of
              [] \<Rightarrow> [[x]]
            | w # ws \<Rightarrow> (x # w) # ws))"

fun str_contains :: "string \<Rightarrow> string \<Rightarrow> bool" where
  "str_contains p [] = (p = [])"
| "str_contains p (c # cs) = (prefix p (c # cs) \<or> str_contains p cs)"

text \<open>\<^verbatim>\<open>str(n)\<close> for an integer, as an f-string renders a line number.\<close>

definition digit_char :: "nat \<Rightarrow> char" where
  "digit_char d = char_of (48 + d)"

fun str_nat :: "nat \<Rightarrow> string" where
  "str_nat n = (if n < 10 then [digit_char n] else str_nat (n div 10) @ [digit_char (n mod 10)])"

declare str_nat.simps [simp del]

definition str_int :: "int \<Rightarrow> string" where
  "str_int i = (if i < 0 then CHR ''-'' # str_nat (nat (- i)) else str_nat (nat i))"

subsection \<open>Networks of the \<^verbatim>\<open>ipaddress\<close> module\<close>

text \<open>
  An \<^verbatim>\<open>IPv4Network\<close> or \<^verbatim>\<open>IPv6Network\<close> object: its version (4 or 6), its
  network address and its netmask as integers. Reading a network from text is the
  library's work; the functions below take that reader as the argument \<open>ipn\<close>
  (\<open>None\<close> where \<^verbatim>\<open>ip_network(s, strict=False)\<close> raises \<open>ValueError\<close>) and the
  reader of decimal integers as \<open>toi\<close> (\<open>None\<close> where \<^verbatim>\<open>int(s)\<close> raises
  \<open>ValueError\<close>), so that every general statement holds for the library's own readers.
\<close>

record ip_net =
  version :: nat
  network_address :: nat
  netmask :: nat

definition all_ones :: "ip_net \<Rightarrow> nat" where
  "all_ones n = (if version n = 4 then 2 ^ 32 - 1 else 2 ^ 128 - 1)"

definition hostmask :: "ip_net \<Rightarrow> nat" where
  "hostmask n = netmask n XOR all_ones n"

definition broadcast_address :: "ip_net \<Rightarrow> nat" where
  "broadcast_address n = network_address n OR hostmask n"

text \<open>\<^verbatim>\<open>address in network\<close>, for an address given by its version and integer.\<close>

definition net_contains :: "ip_net \<Rightarrow> nat \<Rightarrow> nat \<Rightarrow> bool" where
  "net_contains n v ip = (if version n \<noteq> v then False else ip AND netmask n = network_address n)"

definition overlaps :: "ip_net \<Rightarrow> ip_net \<Rightarrow> bool" where
  "overlaps a b =
     (net_contains b (version a) (network_address a) \<or>
      (net_contains b (version a) (broadcast_address a) \<or>
       (net_contains a (version b) (network_address b) \<or>
        net_contains a (version b) (broadcast_address b))))"

definition is_subnet_of :: "ip_net \<Rightarrow> ip_net \<Rightarrow> error + bool" where
  "is_subnet_of a b =
     (if version a \<noteq> version b then Inl TypeError
      else Inr (network_address b \<le> network_address a \<and> broadcast_address a \<le> broadcast_address b))"

definition supernet_of :: "ip_net \<Rightarrow> ip_net \<Rightarrow> error + bool" where
  "supernet_of n other = is_subnet_of other n"

definition net_eq :: "ip_net \<Rightarrow> ip_net \<Rightarrow> bool" where
  "net_eq a b = (version a = version b \<and> network_address a = network_address b \<and> netmask a = netmask b)"

definition ip_network :: "(string \<Rightarrow> ip_net option) \<Rightarrow> string \<Rightarrow> error + ip_net" where
  "ip_network ipn s = (case ipn s of None \<Rightarrow> Inl ValueError | Some n \<Rightarrow> Inr n)"

definition py_int :: "(string \<Rightarrow> int option) \<Rightarrow> string \<Rightarrow> error + int" where
  "py_int toi s = (case toi s of None \<Rightarrow> Inl ValueError | Some i \<Rightarrow> Inr i)"

section \<open>The rule model (parser.py)\<close>

datatype pval = PStr string | PTrue

record FirewallRule =
  table :: string
  chain :: string
  target :: string
  protocol :: "string option"
  source_ip :: "string option"
  destination_ip :: "string option"
  source_port :: "string option"
  destination_port :: "string option"
  interface_in :: "string option"
  interface_out :: "string option"
  state :: "string option"
  module :: "string option"
  jump_target :: "string option"
  line_number :: int
  raw_rule :: string
  parameters :: "(string, pval) mapping"

datatype ChainPolicy = POLICY_ACCEPT | POLICY_DROP | POLICY_REJECT

record ChainInfo =
  name :: string
  policy :: ChainPolicy
  packet_count :: int
  byte_count :: int
  is_user_defined :: bool

text \<open>
  The dictionaries of a configuration are association lists in insertion order, the
  order in which \<^verbatim>\<open>.items()\<close> iterates.
\<close>

type_synonym chains_dict = "(string \<times> FirewallRule list) list"
type_synonym tables_dict = "(string \<times> chains_dict) list"

record FirewallConfig =
  tables :: tables_dict
  chains :: "(string \<times> ChainInfo) list"
  comments :: "string list"

section \<open>The analyzer (analyzer.py)\<close>

datatype IssueType = REDUNDANT | CONFLICTING | UNREACHABLE | INEFFICIENT_ORDER
  | SECURITY_RISK | OVERLY_PERMISSIVE | MISSING_LOG

datatype IssueSeverity = LOW | MEDIUM | HIGH | CRITICAL

record RuleIssue =
  issue_type :: IssueType
  severity :: IssueSeverity
  description :: string
  affected_rules :: "FirewallRule list"
  recommendation :: string
  confidence :: int

text \<open>
  The two scores are Python floats that only ever hold \<open>100\<close> minus a sum of small whole
  penalties, which floats represent exactly; they are integers here. The confidence of
  an issue is the constant default \<open>1.0\<close>.
\<close>

record AnalysisResult =
  issues :: "RuleIssue list"
  statistics :: "(string \<times> int) list"
  rule_efficiency_score :: int
  security_score :: int

definition new_AnalysisResult :: AnalysisResult where
  "new_AnalysisResult = \<lparr>issues = [], statistics = [], rule_efficiency_score = 0, security_score = 0\<rparr>"

definition add_issue :: "AnalysisResult \<Rightarrow> RuleIssue \<Rightarrow> AnalysisResult" where
  "add_issue result issue = result\<lparr>issues := issues result @ [issue]\<rparr>"

definition get_issues_by_type :: "AnalysisResult \<Rightarrow> IssueType \<Rightarrow> RuleIssue list" where
  "get_issues_by_type result t = filter (\<lambda>issue. issue_type issue = t) (issues result)"

definition terminal_targets :: "string list" where
  "terminal_targets = [''ACCEPT'', ''DROP'', ''REJECT'']"

subsection \<open>Range algebra\<close>

definition ip_ranges_overlap :: "(string \<Rightarrow> ip_net option) \<Rightarrow> string \<Rightarrow> string \<Rightarrow> error + bool" where
  "ip_ranges_overlap ipn ip1 ip2 =
     except_ValueError
       (bind_result (ip_network ipn ip1) (\<lambda>net1.
        bind_result (ip_network ipn ip2) (\<lambda>net2.
        Inr (overlaps net1 net2))))
       (Inr True)"

definition ip_contains ::
  "(string \<Rightarrow> ip_net option) \<Rightarrow> string option \<Rightarrow> string option \<Rightarrow> error + bool" where
  "ip_contains ipn general specific =
     except_ValueError
       (case general of
          None \<Rightarrow> Inr True
        | Some g \<Rightarrow>
           (case specific of
              None \<Rightarrow> Inr False
            | Some s \<Rightarrow>
               bind_result (ip_network ipn g) (\<lambda>general_net.
               bind_result (ip_network ipn s) (\<lambda>specific_net.
               bind_result (supernet_of general_net specific_net) (\<lambda>sup.
               Inr (sup \<or> net_eq general_net specific_net))))))
       (Inr (general = specific))"

text \<open>
  \<^verbatim>\<open>a, b = map(int, spec.split(':'))\<close> when the text has a colon, \<^verbatim>\<open>a = b = int(spec)\<close>
  otherwise. Unpacking anything but two parts raises \<open>ValueError\<close>, as \<^verbatim>\<open>int\<close> does.
\<close>

definition port_bounds :: "(string \<Rightarrow> int option) \<Rightarrow> string \<Rightarrow> error + (int \<times> int)" where
  "port_bounds toi spec =
     (if CHR '':'' \<in> set spec then
        (case split_on CHR '':'' spec of
           [a, b] \<Rightarrow>
             bind_result (py_int toi a) (\<lambda>lo.
             bind_result (py_int toi b) (\<lambda>hi. Inr (lo, hi)))
         | _ \<Rightarrow> Inl ValueError)
      else bind_result (py_int toi spec) (\<lambda>p. Inr (p, p)))"

definition port_contains ::
  "(string \<Rightarrow> int option) \<Rightarrow> string option \<Rightarrow> string option \<Rightarrow> error + bool" where
  "port_contains toi general specific =
     (case general of
        None \<Rightarrow> Inr True
      | Some g \<Rightarrow>
         (case specific of
            None \<Rightarrow> Inr False
          | Some s \<Rightarrow>
             except_ValueError
               (bind_result (port_bounds toi g) (\<lambda>(g_start, g_end).
                bind_result (port_bounds toi s) (\<lambda>(s_start, s_end).
                Inr (g_start \<le> s_start \<and> s_end \<le> g_end))))
               (Inr (g = s))))"

subsection \<open>Rule comparison\<close>

definition create_rule_signature :: "FirewallRule \<Rightarrow> string" where
  "create_rule_signature rule =
     join ''|''
       [chain rule, target rule, or_empty (protocol rule), or_empty (source_ip rule),
        or_empty (destination_ip rule), or_empty (source_port rule),
        or_empty (destination_port rule), or_empty (interface_in rule),
        or_empty (interface_out rule), or_empty (state rule)]"

text \<open>
  One round of the loop over the criteria in \<^verbatim>\<open>_rules_match_same_traffic\<close>: \<open>True\<close>
  when the loop goes on to the next criterion, \<open>False\<close> when it returns \<^verbatim>\<open>False\<close>.
  Only the two address criteria consult \<^verbatim>\<open>_ip_ranges_overlap\<close>.
\<close>

definition criterion_overlaps ::
  "(string \<Rightarrow> ip_net option) \<Rightarrow> bool \<Rightarrow> string option \<Rightarrow> string option \<Rightarrow> error + bool" where
  "criterion_overlaps ipn is_ip val1 val2 =
     (case val1 of
        None \<Rightarrow> Inr True
      | Some v1 \<Rightarrow>
         (case val2 of
            None \<Rightarrow> Inr True
          | Some v2 \<Rightarrow>
             (if v1 \<noteq> v2 then
                (if is_ip then
                   bind_result (ip_ranges_overlap ipn v1 v2) (\<lambda>ov. Inr ov)
                 else Inr False)
              else Inr True)))"

fun match_loop ::
  "(string \<Rightarrow> ip_net option) \<Rightarrow> (bool \<times> (FirewallRule \<Rightarrow> string option)) list \<Rightarrow>
   FirewallRule \<Rightarrow> FirewallRule \<Rightarrow> error + bool" where
  "match_loop ipn [] rule1 rule2 = Inr True"
| "match_loop ipn ((is_ip, criterion) # rest) rule1 rule2 =
     bind_result (criterion_overlaps ipn is_ip (criterion rule1) (criterion rule2)) (\<lambda>go_on.
       if go_on then match_loop ipn rest rule1 rule2 else Inr False)"

definition match_criteria :: "(bool \<times> (FirewallRule \<Rightarrow> string option)) list" where
  "match_criteria =
     [(False, protocol), (True, source_ip), (True, destination_ip), (False, source_port),
      (False, destination_port), (False, interface_in), (False, interface_out)]"

definition rules_match_same_traffic ::
  "(string \<Rightarrow> ip_net option) \<Rightarrow> FirewallRule \<Rightarrow> FirewallRule \<Rightarrow> error + bool" where
  "rules_match_same_traffic ipn rule1 rule2 = match_loop ipn match_criteria rule1 rule2"

definition rules_conflict ::
  "(string \<Rightarrow> ip_net option) \<Rightarrow> FirewallRule \<Rightarrow> FirewallRule \<Rightarrow> error + bool" where
  "rules_conflict ipn rule1 rule2 =
     (if target rule1 = target rule2 then Inr False
      else bind_result (rules_match_same_traffic ipn rule1 rule2) (\<lambda>same.
             Inr (same \<and> target rule1 \<noteq> target rule2 \<and>
                  target rule1 \<in> set terminal_targets \<and>
                  target rule2 \<in> set terminal_targets)))"

definition restrictions :: "FirewallRule \<Rightarrow> nat" where
  "restrictions rule =
     length (filter (\<lambda>attr. attr rule \<noteq> None)
       [protocol, source_ip, destination_ip, source_port, destination_port])"

definition is_more_general :: "FirewallRule \<Rightarrow> FirewallRule \<Rightarrow> bool" where
  "is_more_general rule1 rule2 = (restrictions rule1 < restrictions rule2)"

text \<open>
  The criteria of \<^verbatim>\<open>_rule_covers_completely\<close>, each with its check, tried in the order
  of the source list; the first check that fails ends the loop with \<^verbatim>\<open>False\<close>.
\<close>

datatype cover_check = ByEquality | ByAddress | ByPort

definition check_func ::
  "(string \<Rightarrow> ip_net option) \<Rightarrow> (string \<Rightarrow> int option) \<Rightarrow> cover_check \<Rightarrow>
   string option \<Rightarrow> string option \<Rightarrow> error + bool" where
  "check_func ipn toi k g s =
     (case k of
        ByEquality \<Rightarrow> Inr (g = None \<or> g = s)
      | ByAddress \<Rightarrow> (if g = None then Inr True else ip_contains ipn g s)
      | ByPort \<Rightarrow> (if g = None then Inr True else port_contains toi g s))"

definition cover_criteria :: "(cover_check \<times> (FirewallRule \<Rightarrow> string option)) list" where
  "cover_criteria =
     [(ByEquality, protocol), (ByAddress, source_ip), (ByAddress, destination_ip),
      (ByPort, source_port), (ByPort, destination_port), (ByEquality, interface_in),
      (ByEquality, interface_out)]"

fun cover_loop ::
  "(string \<Rightarrow> ip_net option) \<Rightarrow> (string \<Rightarrow> int option) \<Rightarrow>
   (cover_check \<times> (FirewallRule \<Rightarrow> string option)) list \<Rightarrow>
   FirewallRule \<Rightarrow> FirewallRule \<Rightarrow> error + bool" where
  "cover_loop ipn toi [] general_rule specific_rule = Inr True"
| "cover_loop ipn toi ((k, attr) # rest) general_rule specific_rule =
     bind_result (check_func ipn toi k (attr general_rule) (attr specific_rule)) (\<lambda>ok.
       if \<not> ok then Inr False else cover_loop ipn toi rest general_rule specific_rule)"

definition rule_covers_completely ::
  "(string \<Rightarrow> ip_net option) \<Rightarrow> (string \<Rightarrow> int option) \<Rightarrow>
   FirewallRule \<Rightarrow> FirewallRule \<Rightarrow> error + bool" where
  "rule_covers_completely ipn toi general_rule specific_rule =
     cover_loop ipn toi cover_criteria general_rule specific_rule"

subsection \<open>The six checks of a chain\<close>

definition redundant_issue :: "FirewallRule \<Rightarrow> FirewallRule \<Rightarrow> RuleIssue" where
  "redundant_issue original_rule rule =
     \<lparr>issue_type = REDUNDANT, severity = MEDIUM,
      description = ''Redundant rule found: duplicate of rule at line '' @
                    str_int (line_number original_rule),
      affected_rules = [original_rule, rule],
      recommendation = ''Remove the duplicate rule to improve performance and reduce complexity'',
      confidence = 1\<rparr>"

fun redundant_loop ::
  "FirewallRule list \<Rightarrow> (string \<times> FirewallRule) list \<Rightarrow> AnalysisResult \<Rightarrow> AnalysisResult" where
  "redundant_loop [] seen_rules result = result"
| "redundant_loop (rule # rest) seen_rules result =
     (let signature = create_rule_signature rule in
      case map_of seen_rules signature of
        Some original_rule \<Rightarrow>
          redundant_loop rest seen_rules (add_issue result (redundant_issue original_rule rule))
      | None \<Rightarrow> redundant_loop rest (seen_rules @ [(signature, rule)]) result)"

definition check_redundant_rules :: "FirewallRule list \<Rightarrow> AnalysisResult \<Rightarrow> AnalysisResult" where
  "check_redundant_rules rules result = redundant_loop rules [] result"

definition conflicting_issue :: "FirewallRule \<Rightarrow> FirewallRule \<Rightarrow> RuleIssue" where
  "conflicting_issue rule1 rule2 =
     \<lparr>issue_type = CONFLICTING,
      severity = (if target rule1 = ''DROP'' \<or> target rule2 = ''DROP'' then HIGH else MEDIUM),
      description = ''Conflicting rules: '' @ target rule1 @ '' vs '' @ target rule2 @
                    '' for same traffic'',
      affected_rules = [rule1, rule2],
      recommendation = ''Review rule order and consolidate conflicting rules'',
      confidence = 1\<rparr>"

fun conflict_inner ::
  "(string \<Rightarrow> ip_net option) \<Rightarrow> FirewallRule \<Rightarrow> FirewallRule list \<Rightarrow> AnalysisResult \<Rightarrow>
   error + AnalysisResult" where
  "conflict_inner ipn rule1 [] result = Inr result"
| "conflict_inner ipn rule1 (rule2 # rest) result =
     bind_result (rules_conflict ipn rule1 rule2) (\<lambda>c.
       conflict_inner ipn rule1 rest
         (if c then add_issue result (conflicting_issue rule1 rule2) else result))"

fun conflict_outer ::
  "(string \<Rightarrow> ip_net option) \<Rightarrow> FirewallRule list \<Rightarrow> AnalysisResult \<Rightarrow> error + AnalysisResult" where
  "conflict_outer ipn [] result = Inr result"
| "conflict_outer ipn (rule1 # rest) result =
     bind_result (conflict_inner ipn rule1 rest result) (\<lambda>result'.
       conflict_outer ipn rest result')"

definition check_conflicting_rules ::
  "(string \<Rightarrow> ip_net option) \<Rightarrow> FirewallRule list \<Rightarrow> AnalysisResult \<Rightarrow> error + AnalysisResult" where
  "check_conflicting_rules ipn rules result = conflict_outer ipn rules result"

definition ordering_issue :: "FirewallRule \<Rightarrow> FirewallRule \<Rightarrow> RuleIssue" where
  "ordering_issue earlier_rule rule =
     \<lparr>issue_type = INEFFICIENT_ORDER, severity = MEDIUM,
      description = ''Specific rule at line '' @ str_int (line_number rule) @
                    '' comes after general rule at line '' @ str_int (line_number earlier_rule),
      affected_rules = [earlier_rule, rule],
      recommendation = ''Move more specific rules before general ones for better performance'',
      confidence = 1\<rparr>"

fun ordering_inner :: "FirewallRule list \<Rightarrow> FirewallRule \<Rightarrow> AnalysisResult \<Rightarrow> AnalysisResult" where
  "ordering_inner [] rule result = result"
| "ordering_inner (earlier_rule # rest) rule result =
     ordering_inner rest rule
       (if is_more_general earlier_rule rule \<and> target rule \<noteq> target earlier_rule
        then add_issue result (ordering_issue earlier_rule rule) else result)"

text \<open>
  The loops \<^verbatim>\<open>for i, rule in enumerate(rules): for j in range(i)\<close>: the first argument
  holds \<^verbatim>\<open>rules[0:i]\<close>, the second \<^verbatim>\<open>rules[i:]\<close>.
\<close>

fun ordering_outer ::
  "FirewallRule list \<Rightarrow> FirewallRule list \<Rightarrow> AnalysisResult \<Rightarrow> AnalysisResult" where
  "ordering_outer earlier [] result = result"
| "ordering_outer earlier (rule # rest) result =
     ordering_outer (earlier @ [rule]) rest (ordering_inner earlier rule result)"

definition check_rule_ordering :: "FirewallRule list \<Rightarrow> AnalysisResult \<Rightarrow> AnalysisResult" where
  "check_rule_ordering rules result = ordering_outer [] rules result"

definition unreachable_issue :: "FirewallRule \<Rightarrow> FirewallRule \<Rightarrow> RuleIssue" where
  "unreachable_issue earlier_rule rule =
     \<lparr>issue_type = UNREACHABLE, severity = MEDIUM,
      description = ''Rule at line '' @ str_int (line_number rule) @
                    '' is unreachable due to rule at line '' @ str_int (line_number earlier_rule),
      affected_rules = [earlier_rule, rule],
      recommendation = ''Remove unreachable rule or reorder rules'',
      confidence = 1\<rparr>"

text \<open>The inner loop with its \<^verbatim>\<open>break\<close>: the scan of \<^verbatim>\<open>rules[0:i]\<close> from index 0 up.\<close>

fun unreachable_inner ::
  "(string \<Rightarrow> ip_net option) \<Rightarrow> (string \<Rightarrow> int option) \<Rightarrow>
   FirewallRule list \<Rightarrow> FirewallRule \<Rightarrow> AnalysisResult \<Rightarrow> error + AnalysisResult" where
  "unreachable_inner ipn toi [] rule result = Inr result"
| "unreachable_inner ipn toi (earlier_rule # rest) rule result =
     bind_result (rule_covers_completely ipn toi earlier_rule rule) (\<lambda>covers.
       if covers \<and> target earlier_rule \<in> set terminal_targets
       then Inr (add_issue result (unreachable_issue earlier_rule rule))
       else unreachable_inner ipn toi rest rule result)"

fun unreachable_outer ::
  "(string \<Rightarrow> ip_net option) \<Rightarrow> (string \<Rightarrow> int option) \<Rightarrow>
   FirewallRule list \<Rightarrow> FirewallRule list \<Rightarrow> AnalysisResult \<Rightarrow> error + AnalysisResult" where
  "unreachable_outer ipn toi earlier [] result = Inr result"
| "unreachable_outer ipn toi earlier (rule # rest) result =
     bind_result (unreachable_inner ipn toi earlier rule result) (\<lambda>result'.
       unreachable_outer ipn toi (earlier @ [rule]) rest result')"

definition check_unreachable_rules ::
  "(string \<Rightarrow> ip_net option) \<Rightarrow> (string \<Rightarrow> int option) \<Rightarrow>
   FirewallRule list \<Rightarrow> AnalysisResult \<Rightarrow> error + AnalysisResult" where
  "check_unreachable_rules ipn toi rules result = unreachable_outer ipn toi [] rules result"

definition security_risk_issue :: "FirewallRule \<Rightarrow> RuleIssue" where
  "security_risk_issue rule =
     \<lparr>issue_type = SECURITY_RISK, severity = HIGH,
      description = ''Administrative port '' @ or_empty (destination_port rule) @
                    '' open to all sources'',
      affected_rules = [rule],
      recommendation = ''Restrict access to administrative ports to specific source IPs'',
      confidence = 1\<rparr>"

definition missing_log_issue :: "FirewallRule \<Rightarrow> RuleIssue" where
  "missing_log_issue rule =
     \<lparr>issue_type = MISSING_LOG, severity = LOW,
      description = ''DROP rule without logging'',
      affected_rules = [rule],
      recommendation = ''Consider adding logging to DROP rules for security monitoring'',
      confidence = 1\<rparr>"

fun check_security_issues :: "FirewallRule list \<Rightarrow> AnalysisResult \<Rightarrow> AnalysisResult" where
  "check_security_issues [] result = result"
| "check_security_issues (rule # rest) result =
     (let result1 =
        (if target rule = ''ACCEPT'' \<and>
            source_ip rule \<in> set [None, Some ''0.0.0.0/0'', Some ''any''] \<and>
            destination_port rule \<in> set [Some ''22'', Some ''3389'', Some ''23'']
         then add_issue result (security_risk_issue rule) else result);
          result2 =
        (if target rule = ''DROP'' \<and> \<not> str_contains ''LOG'' (raw_rule rule)
         then add_issue result1 (missing_log_issue rule) else result1)
      in check_security_issues rest result2)"

definition permissive_issue :: "FirewallRule \<Rightarrow> RuleIssue" where
  "permissive_issue rule =
     \<lparr>issue_type = OVERLY_PERMISSIVE, severity = HIGH,
      description = ''Rule accepts all traffic without restrictions'',
      affected_rules = [rule],
      recommendation = ''Add specific restrictions to limit the scope of this rule'',
      confidence = 1\<rparr>"

fun check_permissive_rules :: "FirewallRule list \<Rightarrow> AnalysisResult \<Rightarrow> AnalysisResult" where
  "check_permissive_rules [] result = result"
| "check_permissive_rules (rule # rest) result =
     check_permissive_rules rest
       (if target rule = ''ACCEPT'' \<and> \<not> truthy (source_ip rule) \<and>
           \<not> truthy (destination_ip rule) \<and> \<not> truthy (destination_port rule) \<and>
           \<not> truthy (protocol rule)
        then add_issue result (permissive_issue rule) else result)"

subsection \<open>Scores\<close>

fun efficiency_loop :: "RuleIssue list \<Rightarrow> int \<Rightarrow> int" where
  "efficiency_loop [] base_score = base_score"
| "efficiency_loop (issue # rest) base_score =
     efficiency_loop rest
       (if issue_type issue = REDUNDANT then base_score - 5
        else if issue_type issue = INEFFICIENT_ORDER then base_score - 3
        else if issue_type issue = UNREACHABLE then base_score - 4
        else base_score)"

definition calculate_efficiency_score :: "AnalysisResult \<Rightarrow> int" where
  "calculate_efficiency_score result = max 0 (min 100 (efficiency_loop (issues result) 100))"

fun security_loop :: "RuleIssue list \<Rightarrow> int \<Rightarrow> int" where
  "security_loop [] base_score = base_score"
| "security_loop (issue # rest) base_score =
     security_loop rest
       (if issue_type issue = SECURITY_RISK then
          (if severity issue = CRITICAL then base_score - 20
           else if severity issue = HIGH then base_score - 15
           else if severity issue = MEDIUM then base_score - 10
           else base_score)
        else if issue_type issue = OVERLY_PERMISSIVE then base_score - 8
        else base_score)"

definition calculate_security_score :: "AnalysisResult \<Rightarrow> int" where
  "calculate_security_score result = max 0 (min 100 (security_loop (issues result) 100))"

subsection \<open>Statistics and the analysis of a configuration\<close>

fun inc :: "string \<Rightarrow> int \<Rightarrow> (string \<times> int) list \<Rightarrow> (string \<times> int) list" where
  "inc k n [] = []"
| "inc k n ((k', v) # rest) = (if k' = k then (k', v + n) # rest else (k', v) # inc k n rest)"

fun stats_rules :: "FirewallRule list \<Rightarrow> (string \<times> int) list \<Rightarrow> (string \<times> int) list" where
  "stats_rules [] stats = stats"
| "stats_rules (rule # rest) stats =
     stats_rules rest
       (if target rule = ''ACCEPT'' then inc ''accept_rules'' 1 stats
        else if target rule = ''DROP'' then inc ''drop_rules'' 1 stats
        else if target rule = ''REJECT'' then inc ''reject_rules'' 1 stats
        else stats)"

fun stats_chains :: "chains_dict \<Rightarrow> (string \<times> int) list \<Rightarrow> (string \<times> int) list" where
  "stats_chains [] stats = stats"
| "stats_chains ((chain_name, rules) # rest) stats =
     (let stats1 = inc ''total_rules'' (int (length rules)) stats;
          stats2 = (if chain_name \<notin> set [''INPUT'', ''OUTPUT'', ''FORWARD'', ''PREROUTING'', ''POSTROUTING'']
                    then inc ''custom_chains'' 1 stats1 else stats1)
      in stats_chains rest (stats_rules rules stats2))"

fun stats_tables :: "tables_dict \<Rightarrow> (string \<times> int) list \<Rightarrow> (string \<times> int) list" where
  "stats_tables [] stats = stats"
| "stats_tables ((table_name, chs) # rest) stats =
     stats_tables rest (stats_chains chs (inc ''total_chains'' (int (length chs)) stats))"

definition calculate_statistics :: "FirewallConfig \<Rightarrow> (string \<times> int) list" where
  "calculate_statistics config =
     stats_tables (tables config)
       [(''total_rules'', 0), (''total_chains'', 0), (''total_tables'', int (length (tables config))),
        (''accept_rules'', 0), (''drop_rules'', 0), (''reject_rules'', 0), (''custom_chains'', 0)]"

definition run_checks ::
  "(string \<Rightarrow> ip_net option) \<Rightarrow> (string \<Rightarrow> int option) \<Rightarrow>
   FirewallRule list \<Rightarrow> AnalysisResult \<Rightarrow> error + AnalysisResult" where
  "run_checks ipn toi rules result =
     bind_result (check_conflicting_rules ipn rules (check_redundant_rules rules result)) (\<lambda>r2.
     bind_result (check_unreachable_rules ipn toi rules (check_rule_ordering rules r2)) (\<lambda>r4.
     Inr (check_permissive_rules rules (check_security_issues rules r4))))"

fun analyze_chains ::
  "(string \<Rightarrow> ip_net option) \<Rightarrow> (string \<Rightarrow> int option) \<Rightarrow>
   chains_dict \<Rightarrow> AnalysisResult \<Rightarrow> error + AnalysisResult" where
  "analyze_chains ipn toi [] result = Inr result"
| "analyze_chains ipn toi ((chain_name, rules) # rest) result =
     (if rules = [] then analyze_chains ipn toi rest result
      else bind_result (run_checks ipn toi rules result) (\<lambda>result'.
             analyze_chains ipn toi rest result'))"

fun analyze_tables ::
  "(string \<Rightarrow> ip_net option) \<Rightarrow> (string \<Rightarrow> int option) \<Rightarrow>
   tables_dict \<Rightarrow> AnalysisResult \<Rightarrow> error + AnalysisResult" where
  "analyze_tables ipn toi [] result = Inr result"
| "analyze_tables ipn toi ((table_name, chs) # rest) result =
     bind_result (analyze_chains ipn toi chs result) (\<lambda>result'.
       analyze_tables ipn toi rest result')"

text \<open>
  The argument is optional because a caller can pass \<^verbatim>\<open>None\<close>; reading
  \<^verbatim>\<open>config.tables\<close> then raises \<open>AttributeError\<close>.
\<close>

definition analyze_configuration ::
  "(string \<Rightarrow> ip_net option) \<Rightarrow> (string \<Rightarrow> int option) \<Rightarrow>
   FirewallConfig option \<Rightarrow> error + AnalysisResult" where
  "analyze_configuration ipn toi config_opt =
     (case config_opt of
        None \<Rightarrow> Inl AttributeError
      | Some config \<Rightarrow>
          bind_result (analyze_tables ipn toi (tables config) new_AnalysisResult) (\<lambda>result.
            let result1 = result\<lparr>statistics := calculate_statistics config\<rparr>;
                result2 = result1\<lparr>rule_efficiency_score := calculate_efficiency_score result1\<rparr>
            in Inr (result2\<lparr>security_score := calculate_security_score result2\<rparr>)))"

section \<open>Readers and rules for the worked scenarios\<close>

text \<open>
  Two concrete readers for the scenarios below: what \<^verbatim>\<open>int\<close> does on a plain signed
  decimal numeral and what \<^verbatim>\<open>ip_network(s, strict=False)\<close> does on a dotted IPv4
  address with an optional prefix length. No general statement depends on them.
\<close>

definition digit_of :: "char \<Rightarrow> nat option" where
  "digit_of c =
     (if (48::nat) \<le> of_char c \<and> (of_char c :: nat) \<le> 57 then Some (of_char c - 48) else None)"

fun digits_value :: "string \<Rightarrow> nat \<Rightarrow> nat option" where
  "digits_value [] acc = Some acc"
| "digits_value (c # cs) acc =
     (case digit_of c of None \<Rightarrow> None | Some d \<Rightarrow> digits_value cs (10 * acc + d))"

definition numeral_value :: "string \<Rightarrow> nat option" where
  "numeral_value s = (if s = [] then None else digits_value s 0)"

definition int_reader :: "string \<Rightarrow> int option" where
  "int_reader s =
     (case s of
        [] \<Rightarrow> None
      | c # cs \<Rightarrow>
          if c = CHR ''-'' then map_option (\<lambda>n. - int n) (numeral_value cs)
          else if c = CHR ''+'' then map_option int (numeral_value cs)
          else map_option int (numeral_value s))"

definition octet_value :: "string \<Rightarrow> nat option" where
  "octet_value s =
     (if 3 < length s \<or> (1 < length s \<and> hd s = CHR ''0'') then None
      else (case numeral_value s of
              None \<Rightarrow> None
            | Some n \<Rightarrow> if n \<le> 255 then Some n else None))"

definition ipv4_address :: "string \<Rightarrow> nat option" where
  "ipv4_address s =
     (case map octet_value (split_on CHR ''.'' s) of
        [Some a, Some b, Some c, Some d] \<Rightarrow> Some (((a * 256 + b) * 256 + c) * 256 + d)
      | _ \<Rightarrow> None)"

definition ipv4_net :: "nat \<Rightarrow> nat \<Rightarrow> ip_net" where
  "ipv4_net ip prefixlen =
     (let mask = 2 ^ 32 - 2 ^ (32 - prefixlen)
      in \<lparr>version = 4, network_address = ip AND mask, netmask = mask\<rparr>)"

definition ipv4_reader :: "string \<Rightarrow> ip_net option" where
  "ipv4_reader s =
     (case split_on CHR ''/'' s of
        [a] \<Rightarrow> map_option (\<lambda>ip. ipv4_net ip 32) (ipv4_address a)
      | [a, p] \<Rightarrow>
          (case ipv4_address a of
             None \<Rightarrow> None
           | Some ip \<Rightarrow>
               (case numeral_value p of
                  None \<Rightarrow> None
                | Some n \<Rightarrow> if n \<le> 32 then Some (ipv4_net ip n) else None))
      | _ \<Rightarrow> None)"

text \<open>
  \<^verbatim>\<open>FirewallRule(table=..., chain=..., target=..., line_number=..., raw_rule=...)\<close>
  with the defaults of the other fields, followed by \<^verbatim>\<open>__post_init__\<close>: a target that
  is not one of the five built-in actions is stored as the jump target. The parser
  creates a rule with the target still empty and fills the fields in afterwards.
\<close>

definition post_init :: "FirewallRule \<Rightarrow> FirewallRule" where
  "post_init r =
     (if target r \<in> set [''ACCEPT'', ''DROP'', ''REJECT'', ''LOG'', ''RETURN''] then r
      else r\<lparr>jump_target := Some (target r)\<rparr>)"

definition new_FirewallRule :: "string \<Rightarrow> string \<Rightarrow> string \<Rightarrow> int \<Rightarrow> string \<Rightarrow> FirewallRule" where
  "new_FirewallRule t c tg n raw =
     post_init
       \<lparr>table = t, chain = c, target = tg, protocol = None, source_ip = None,
        destination_ip = None, source_port = None, destination_port = None,
        interface_in = None, interface_out = None, state = None, module = None,
        jump_target = None, line_number = n, raw_rule = raw, parameters = Mapping.empty\<rparr>"

text \<open>The line \<^verbatim>\<open>-A INPUT -p tcp --dport <port> -j ACCEPT\<close> of the filter table, parsed.\<close>

definition accept_tcp_rule :: "string \<Rightarrow> int \<Rightarrow> FirewallRule" where
  "accept_tcp_rule port n =
     (new_FirewallRule ''filter'' ''INPUT'' [] n (''-A INPUT -p tcp --dport '' @ port @ '' -j ACCEPT''))
       \<lparr>target := ''ACCEPT'', protocol := Some ''tcp'', destination_port := Some port,
        parameters := Mapping.of_alist [(''p'', PStr ''tcp''), (''dport'', PStr port), (''j'', PStr ''ACCEPT'')]\<rparr>"

text \<open>The line \<^verbatim>\<open>-A INPUT -j DROP\<close> of the filter table, parsed.\<close>

definition drop_all_rule :: "int \<Rightarrow> FirewallRule" where
  "drop_all_rule n =
     (new_FirewallRule ''filter'' ''INPUT'' [] n ''-A INPUT -j DROP'')
       \<lparr>target := ''DROP'', parameters := Mapping.of_alist [(''j'', PStr ''DROP'')]\<rparr>"

definition config_of_input_chain :: "FirewallRule list \<Rightarrow> FirewallConfig" where
  "config_of_input_chain rules =
     \<lparr>tables = [(''filter'', [(''INPUT'', rules)])], chains = [], comments = []\<rparr>"

text \<open>Two identical accept rules at lines 1 and 2, then the drop rule at line 3.\<close>

definition duplicate_ssh_policy :: FirewallConfig where
  "duplicate_ssh_policy =
     config_of_input_chain [accept_tcp_rule ''22'' 1, accept_tcp_rule ''22'' 2, drop_all_rule 3]"

section \<open>Vocabulary of the statements\<close>

text \<open>
  The condition under which the unreachable check flags a pair: the earlier rule covers
  the later one completely and its target is terminal.
\<close>

definition shadows ::
  "(string \<Rightarrow> ip_net option) \<Rightarrow> (string \<Rightarrow> int option) \<Rightarrow> FirewallRule \<Rightarrow> FirewallRule \<Rightarrow> bool" where
  "shadows ipn toi earlier_rule rule =
     (rule_covers_completely ipn toi earlier_rule rule = Inr True \<and>
      target earlier_rule \<in> set terminal_targets)"

text \<open>
  What the unreachable check reports for the rule at position \<open>i\<close> of a chain: nothing
  when no earlier rule shadows it, and otherwise one issue that names the shadowing rule
  of least position.
\<close>

definition reported_for ::
  "(string \<Rightarrow> ip_net option) \<Rightarrow> (string \<Rightarrow> int option) \<Rightarrow> FirewallRule list \<Rightarrow> nat \<Rightarrow> RuleIssue list \<Rightarrow> bool" where
  "reported_for ipn toi rules i xs =
     ((xs = [] \<and> (\<forall>j<i. \<not> shadows ipn toi (rules ! j) (rules ! i))) \<or>
      (\<exists>j<i. xs = [unreachable_issue (rules ! j) (rules ! i)] \<and>
             shadows ipn toi (rules ! j) (rules ! i) \<and>
             (\<forall>k<j. \<not> shadows ipn toi (rules ! k) (rules ! i))))"

text \<open>A later rule leaves an address or port field absent that the earlier rule restricts.\<close>

definition restricts_where_absent :: "FirewallRule \<Rightarrow> FirewallRule \<Rightarrow> bool" where
  "restricts_where_absent earlier_rule rule =
     ((source_ip earlier_rule \<noteq> None \<and> source_ip rule = None) \<or>
      (destination_ip earlier_rule \<noteq> None \<and> destination_ip rule = None) \<or>
      (source_port earlier_rule \<noteq> None \<and> source_port rule = None) \<or>
      (destination_port earlier_rule \<noteq> None \<and> destination_port rule = None))"

text \<open>
  Following the specification's words for the unreachable check, not the source: the
  nearest covering predecessor of the rule at position \<open>i\<close> is the shadowing rule closest
  before it.
\<close>

definition nearest_covering_predecessor ::
  "(string \<Rightarrow> ip_net option) \<Rightarrow> (string \<Rightarrow> int option) \<Rightarrow> FirewallRule list \<Rightarrow> nat \<Rightarrow> nat option" where
  "nearest_covering_predecessor ipn toi rules i =
     (case filter (\<lambda>j. shadows ipn toi (rules ! j) (rules ! i)) (rev [0..<i]) of
        [] \<Rightarrow> None
      | j # _ \<Rightarrow> Some j)"

text \<open>
  A chain in which two earlier rules shadow the last one: \<^verbatim>\<open>-A INPUT -i eth0 -j DROP\<close>
  at line 1, \<^verbatim>\<open>-A INPUT -p tcp -j DROP\<close> at line 2 and
  \<^verbatim>\<open>-A INPUT -i eth0 -p tcp --dport 80 -j ACCEPT\<close> at line 3, parsed.
\<close>

definition drop_eth0_rule :: FirewallRule where
  "drop_eth0_rule =
     (new_FirewallRule ''filter'' ''INPUT'' [] 1 ''-A INPUT -i eth0 -j DROP'')
       \<lparr>target := ''DROP'', interface_in := Some ''eth0'',
        parameters := Mapping.of_alist [(''i'', PStr ''eth0''), (''j'', PStr ''DROP'')]\<rparr>"

definition drop_tcp_rule :: FirewallRule where
  "drop_tcp_rule =
     (new_FirewallRule ''filter'' ''INPUT'' [] 2 ''-A INPUT -p tcp -j DROP'')
       \<lparr>target := ''DROP'', protocol := Some ''tcp'',
        parameters := Mapping.of_alist [(''p'', PStr ''tcp''), (''j'', PStr ''DROP'')]\<rparr>"

definition accept_eth0_http_rule :: FirewallRule where
  "accept_eth0_http_rule =
     (new_FirewallRule ''filter'' ''INPUT'' [] 3 ''-A INPUT -i eth0 -p tcp --dport 80 -j ACCEPT'')
       \<lparr>target := ''ACCEPT'', protocol := Some ''tcp'', destination_port := Some ''80'',
        interface_in := Some ''eth0'',
        parameters := Mapping.of_alist [(''i'', PStr ''eth0''), (''p'', PStr ''tcp''), (''dport'', PStr ''80''), (''j'', PStr ''ACCEPT'')]\<rparr>"

text \<open>
  The condition under which the conflict check flags a pair, field by field: a field is
  compatible when it is absent on a side or the two texts are equal; for the two address
  fields, also when \<^verbatim>\<open>_ip_ranges_overlap\<close> says the two networks overlap.
\<close>

definition text_compatible :: "string option \<Rightarrow> string option \<Rightarrow> bool" where
  "text_compatible a b = (a = None \<or> b = None \<or> a = b)"

definition address_compatible :: "(string \<Rightarrow> ip_net option) \<Rightarrow> string option \<Rightarrow> string option \<Rightarrow> bool" where
  "address_compatible ipn a b =
     (case a of
        None \<Rightarrow> True
      | Some u \<Rightarrow> (case b of None \<Rightarrow> True | Some v \<Rightarrow> u = v \<or> ip_ranges_overlap ipn u v = Inr True))"

definition conflict_condition :: "(string \<Rightarrow> ip_net option) \<Rightarrow> FirewallRule \<Rightarrow> FirewallRule \<Rightarrow> bool" where
  "conflict_condition ipn rule1 rule2 =
     (target rule1 \<noteq> target rule2 \<and>
      target rule1 \<in> set terminal_targets \<and> target rule2 \<in> set terminal_targets \<and>
      text_compatible (protocol rule1) (protocol rule2) \<and>
      address_compatible ipn (source_ip rule1) (source_ip rule2) \<and>
      address_compatible ipn (destination_ip rule1) (destination_ip rule2) \<and>
      text_compatible (source_port rule1) (source_port rule2) \<and>
      text_compatible (destination_port rule1) (destination_port rule2) \<and>
      text_compatible (interface_in rule1) (interface_in rule2) \<and>
      text_compatible (interface_out rule1) (interface_out rule2))"

text \<open>
  Following the specification's words for the conflict check, not the source: two port
  specifications overlap when their inclusive intervals meet, and two rules conflict when
  their targets differ, both are terminal, and every matching field overlaps or is absent
  on a side.
\<close>

definition spec_ports_overlap :: "(string \<Rightarrow> int option) \<Rightarrow> string \<Rightarrow> string \<Rightarrow> bool" where
  "spec_ports_overlap toi a b =
     (case port_bounds toi a of
        Inl e \<Rightarrow> a = b
      | Inr (a_start, a_end) \<Rightarrow>
          (case port_bounds toi b of
             Inl e \<Rightarrow> a = b
           | Inr (b_start, b_end) \<Rightarrow> a_start \<le> b_end \<and> b_start \<le> a_end))"

definition spec_field_ok :: "(string \<Rightarrow> string \<Rightarrow> bool) \<Rightarrow> string option \<Rightarrow> string option \<Rightarrow> bool" where
  "spec_field_ok ov a b = (case a of None \<Rightarrow> True | Some u \<Rightarrow> (case b of None \<Rightarrow> True | Some v \<Rightarrow> ov u v))"

definition spec_conflict ::
  "(string \<Rightarrow> ip_net option) \<Rightarrow> (string \<Rightarrow> int option) \<Rightarrow> FirewallRule \<Rightarrow> FirewallRule \<Rightarrow> bool" where
  "spec_conflict ipn toi rule1 rule2 =
     (target rule1 \<noteq> target rule2 \<and>
      target rule1 \<in> set terminal_targets \<and> target rule2 \<in> set terminal_targets \<and>
      spec_field_ok (=) (protocol rule1) (protocol rule2) \<and>
      spec_field_ok (\<lambda>u v. ip_ranges_overlap ipn u v = Inr True) (source_ip rule1) (source_ip rule2) \<and>
      spec_field_ok (\<lambda>u v. ip_ranges_overlap ipn u v = Inr True) (destination_ip rule1) (destination_ip rule2) \<and>
      spec_field_ok (spec_ports_overlap toi) (source_port rule1) (source_port rule2) \<and>
      spec_field_ok (spec_ports_overlap toi) (destination_port rule1) (destination_port rule2) \<and>
      spec_field_ok (=) (interface_in rule1) (interface_in rule2) \<and>
      spec_field_ok (=) (interface_out rule1) (interface_out rule2))"

text \<open>The line \<^verbatim>\<open>-A INPUT -p tcp --dport <port> -j DROP\<close> of the filter table, parsed.\<close>

definition drop_tcp_port_rule :: "string \<Rightarrow> int \<Rightarrow> FirewallRule" where
  "drop_tcp_port_rule port n =
     (new_FirewallRule ''filter'' ''INPUT'' [] n (''-A INPUT -p tcp --dport '' @ port @ '' -j DROP''))
       \<lparr>target := ''DROP'', protocol := Some ''tcp'', destination_port := Some port,
        parameters := Mapping.of_alist [(''p'', PStr ''tcp''), (''dport'', PStr port), (''j'', PStr ''DROP'')]\<rparr>"

section \<open>The recommender (recommender.py)\<close>

datatype RecommendationType = DELETE_RULE | REORDER_RULES | MERGE_RULES | SPLIT_RULE
  | MODIFY_RULE | ADD_RULE | ADD_LOGGING | RESTRICT_SOURCE

text \<open>The priorities \<^verbatim>\<open>LOW = 1\<close> to \<^verbatim>\<open>CRITICAL = 4\<close>; the names of the severities are taken.\<close>

datatype RecommendationPriority = PRIORITY_LOW | PRIORITY_MEDIUM | PRIORITY_HIGH | PRIORITY_CRITICAL

fun priority_value :: "RecommendationPriority \<Rightarrow> int" where
  "priority_value PRIORITY_LOW = 1"
| "priority_value PRIORITY_MEDIUM = 2"
| "priority_value PRIORITY_HIGH = 3"
| "priority_value PRIORITY_CRITICAL = 4"

text \<open>
  The fields \<^verbatim>\<open>description\<close> and \<^verbatim>\<open>affected_rules\<close> of a recommendation carry the
  prefix \<open>rec_\<close>, since an issue has fields of the same names.
\<close>

record Recommendation =
  rec_type :: RecommendationType
  priority :: RecommendationPriority
  title :: string
  rec_description :: string
  rec_affected_rules :: "FirewallRule list"
  new_rules :: "FirewallRule list"
  implementation_notes :: string
  risk_level :: string
  estimated_impact :: string

record OptimizationPlan =
  recommendations :: "Recommendation list"
  estimated_savings :: "(string \<times> real) list"
  backup_required :: bool

definition new_OptimizationPlan :: OptimizationPlan where
  "new_OptimizationPlan = \<lparr>recommendations = [], estimated_savings = [], backup_required = True\<rparr>"

definition add_recommendation :: "OptimizationPlan \<Rightarrow> Recommendation \<Rightarrow> OptimizationPlan" where
  "add_recommendation plan r = plan\<lparr>recommendations := recommendations plan @ [r]\<rparr>"

subsection \<open>Default policies\<close>

definition default_drop_recommendation :: "string \<Rightarrow> string \<Rightarrow> Recommendation" where
  "default_drop_recommendation table_name chain_name =
     \<lparr>rec_type = ADD_RULE, priority = PRIORITY_MEDIUM,
      title = ''Add explicit default DROP policy to '' @ chain_name,
      rec_description =
        ''Add an explicit default DROP rule at the end of the chain for better security.'',
      rec_affected_rules = [],
      new_rules =
        [new_FirewallRule table_name chain_name ''DROP'' 0 (''-A '' @ chain_name @ '' -j DROP'')],
      implementation_notes = ''Add rule: -A '' @ chain_name @ '' -j DROP'',
      risk_level = ''medium'',
      estimated_impact = ''Improved security posture with explicit default policy''\<rparr>"

fun default_policy_chains ::
  "string \<Rightarrow> chains_dict \<Rightarrow> string list \<Rightarrow> OptimizationPlan \<Rightarrow> OptimizationPlan" where
  "default_policy_chains table_name chs [] plan = plan"
| "default_policy_chains table_name chs (chain_name # rest) plan =
     default_policy_chains table_name chs rest
       (case map_of chs chain_name of
          None \<Rightarrow> plan
        | Some rules \<Rightarrow>
            if rules \<noteq> [] then
              (let last_rule = last rules in
               if target last_rule \<noteq> ''DROP'' \<or> truthy (protocol last_rule) \<or>
                  truthy (source_ip last_rule) \<or> truthy (destination_ip last_rule)
               then add_recommendation plan (default_drop_recommendation table_name chain_name)
               else plan)
            else plan)"

fun default_policy_tables :: "tables_dict \<Rightarrow> OptimizationPlan \<Rightarrow> OptimizationPlan" where
  "default_policy_tables [] plan = plan"
| "default_policy_tables ((table_name, chs) # rest) plan =
     default_policy_tables rest
       (if table_name = ''filter''
        then default_policy_chains table_name chs [''INPUT'', ''FORWARD'', ''OUTPUT''] plan
        else plan)"

definition check_default_policies :: "FirewallConfig \<Rightarrow> OptimizationPlan \<Rightarrow> OptimizationPlan" where
  "check_default_policies config plan = default_policy_tables (tables config) plan"

text \<open>
  Following the specification's words, not the source: an unconditional drop is a rule
  with target drop none of whose matching fields is set.
\<close>

definition spec_unconditional_drop :: "FirewallRule \<Rightarrow> bool" where
  "spec_unconditional_drop r =
     (target r = ''DROP'' \<and> protocol r = None \<and> source_ip r = None \<and> destination_ip r = None \<and>
      source_port r = None \<and> destination_port r = None \<and> interface_in r = None \<and>
      interface_out r = None \<and> state r = None)"

text \<open>
  The recommendations that \<^verbatim>\<open>_check_default_policies\<close> adds for one standard chain of
  a table's chains, and the test it applies to the last rule of the chain.
\<close>

definition lacks_default_drop :: "FirewallRule \<Rightarrow> bool" where
  "lacks_default_drop last_rule =
     (target last_rule \<noteq> ''DROP'' \<or> truthy (protocol last_rule) \<or>
      truthy (source_ip last_rule) \<or> truthy (destination_ip last_rule))"

definition chain_recommendations :: "string \<Rightarrow> chains_dict \<Rightarrow> string \<Rightarrow> Recommendation list" where
  "chain_recommendations table_name chs chain_name =
     (case map_of chs chain_name of
        None \<Rightarrow> []
      | Some rules \<Rightarrow>
          if rules \<noteq> [] \<and> lacks_default_drop (last rules)
          then [default_drop_recommendation table_name chain_name] else [])"

subsection \<open>Applying a plan\<close>

text \<open>
  The applier mutates lists and dictionaries in place, so a policy lives in a store of
  objects here. An address is the position of an object in the store, and allocation
  appends. A list object holds the rules of a chain; a dictionary object maps names to
  addresses, in insertion order. Rules are values: the applier never writes to a rule,
  and \<^verbatim>\<open>rule in rules\<close> and \<^verbatim>\<open>rules.remove(rule)\<close> compare rules field by field.
  A policy is named by the address of its \<^verbatim>\<open>tables\<close> dictionary, whose entries are
  the addresses of the chain dictionaries, whose entries are the addresses of the lists.
  A read of an address that holds no object of the expected kind has no counterpart in
  Python; it is \<open>None\<close> here.
\<close>

datatype pyobj = ListObj "FirewallRule list" | DictObj "(string \<times> nat) list"

type_synonym store = "pyobj list"

definition alloc :: "store \<Rightarrow> pyobj \<Rightarrow> nat \<times> store" where
  "alloc h ob = (length h, h @ [ob])"

definition get_list :: "store \<Rightarrow> nat \<Rightarrow> FirewallRule list option" where
  "get_list h a =
     (if a < length h then (case h ! a of ListObj rules \<Rightarrow> Some rules | DictObj d \<Rightarrow> None)
      else None)"

definition get_dict :: "store \<Rightarrow> nat \<Rightarrow> (string \<times> nat) list option" where
  "get_dict h a =
     (if a < length h then (case h ! a of ListObj rules \<Rightarrow> None | DictObj d \<Rightarrow> Some d)
      else None)"

text \<open>
  \<^verbatim>\<open>copy.deepcopy(original_config)\<close>: every dictionary and every list of the policy is
  copied into a new object. The library keeps objects that the original shares shared in
  the copy; the statements below are about policies whose dictionaries and lists are
  all different objects, as the parser and the backup reader build them, and for those
  the copy is as written here.
\<close>

fun copy_lists :: "store \<Rightarrow> (string \<times> nat) list \<Rightarrow> ((string \<times> nat) list \<times> store) option" where
  "copy_lists h [] = Some ([], h)"
| "copy_lists h ((chain_name, a) # rest) =
     (case get_list h a of
        None \<Rightarrow> None
      | Some rules \<Rightarrow>
          (case alloc h (ListObj rules) of (a', h1) \<Rightarrow>
             (case copy_lists h1 rest of
                None \<Rightarrow> None
              | Some (rest', h2) \<Rightarrow> Some ((chain_name, a') # rest', h2))))"

fun copy_dicts :: "store \<Rightarrow> (string \<times> nat) list \<Rightarrow> ((string \<times> nat) list \<times> store) option" where
  "copy_dicts h [] = Some ([], h)"
| "copy_dicts h ((table_name, d) # rest) =
     (case get_dict h d of
        None \<Rightarrow> None
      | Some chs \<Rightarrow>
          (case copy_lists h chs of
             None \<Rightarrow> None
           | Some (chs', h1) \<Rightarrow>
               (case alloc h1 (DictObj chs') of (d', h2) \<Rightarrow>
                  (case copy_dicts h2 rest of
                     None \<Rightarrow> None
                   | Some (rest', h3) \<Rightarrow> Some ((table_name, d') # rest', h3)))))"

definition deepcopy :: "store \<Rightarrow> nat \<Rightarrow> (nat \<times> store) option" where
  "deepcopy h config =
     (case get_dict h config of
        None \<Rightarrow> None
      | Some tbls \<Rightarrow>
          (case copy_dicts h tbls of
             None \<Rightarrow> None
           | Some (tbls', h1) \<Rightarrow> Some (alloc h1 (DictObj tbls'))))"

text \<open>
  \<^verbatim>\<open>_apply_delete_recommendation\<close>: for each affected rule and each table, the chains
  are scanned in order; the first chain that holds the rule loses its first occurrence,
  and the \<^verbatim>\<open>break\<close> ends the scan of that table.
\<close>

fun delete_in_chains :: "FirewallRule \<Rightarrow> (string \<times> nat) list \<Rightarrow> store \<Rightarrow> store option" where
  "delete_in_chains rule [] h = Some h"
| "delete_in_chains rule ((chain_name, a) # rest) h =
     (case get_list h a of
        None \<Rightarrow> None
      | Some rules \<Rightarrow>
          if rule \<in> set rules then Some (h[a := ListObj (remove1 rule rules)])
          else delete_in_chains rule rest h)"

fun delete_in_tables :: "FirewallRule \<Rightarrow> (string \<times> nat) list \<Rightarrow> store \<Rightarrow> store option" where
  "delete_in_tables rule [] h = Some h"
| "delete_in_tables rule ((table_name, d) # rest) h =
     (case get_dict h d of
        None \<Rightarrow> None
      | Some chs \<Rightarrow>
          (case delete_in_chains rule chs h of
             None \<Rightarrow> None
           | Some h1 \<Rightarrow> delete_in_tables rule rest h1))"

definition delete_rule :: "FirewallRule \<Rightarrow> nat \<Rightarrow> store \<Rightarrow> store option" where
  "delete_rule rule config h =
     (case get_dict h config of
        None \<Rightarrow> None
      | Some tbls \<Rightarrow> delete_in_tables rule tbls h)"

fun delete_rules :: "FirewallRule list \<Rightarrow> nat \<Rightarrow> store \<Rightarrow> store option" where
  "delete_rules [] config h = Some h"
| "delete_rules (rule # rest) config h =
     (case delete_rule rule config h of
        None \<Rightarrow> None
      | Some h1 \<Rightarrow> delete_rules rest config h1)"

definition apply_delete_recommendation :: "nat \<Rightarrow> Recommendation \<Rightarrow> store \<Rightarrow> store option" where
  "apply_delete_recommendation config r h = delete_rules (rec_affected_rules r) config h"

text \<open>
  \<^verbatim>\<open>_apply_add_recommendation\<close>: the table and the chain of a new rule are created,
  empty, where the policy does not have them, and the rule is appended to the chain.
\<close>

definition ensure_table :: "string \<Rightarrow> nat \<Rightarrow> store \<Rightarrow> store option" where
  "ensure_table table_name config h =
     (case get_dict h config of
        None \<Rightarrow> None
      | Some tbls \<Rightarrow>
          if map_of tbls table_name = None then
            (case alloc h (DictObj []) of (d, h') \<Rightarrow>
               Some (h'[config := DictObj (tbls @ [(table_name, d)])]))
          else Some h)"

definition ensure_chain :: "string \<Rightarrow> string \<Rightarrow> nat \<Rightarrow> store \<Rightarrow> store option" where
  "ensure_chain table_name chain_name config h =
     (case get_dict h config of
        None \<Rightarrow> None
      | Some tbls \<Rightarrow>
          (case map_of tbls table_name of
             None \<Rightarrow> None
           | Some d \<Rightarrow>
               (case get_dict h d of
                  None \<Rightarrow> None
                | Some chs \<Rightarrow>
                    if map_of chs chain_name = None then
                      (case alloc h (ListObj []) of (a, h') \<Rightarrow>
                         Some (h'[d := DictObj (chs @ [(chain_name, a)])]))
                    else Some h)))"

definition append_to_chain :: "FirewallRule \<Rightarrow> nat \<Rightarrow> store \<Rightarrow> store option" where
  "append_to_chain new_rule config h =
     (case get_dict h config of
        None \<Rightarrow> None
      | Some tbls \<Rightarrow>
          (case map_of tbls (table new_rule) of
             None \<Rightarrow> None
           | Some d \<Rightarrow>
               (case get_dict h d of
                  None \<Rightarrow> None
                | Some chs \<Rightarrow>
                    (case map_of chs (chain new_rule) of
                       None \<Rightarrow> None
                     | Some a \<Rightarrow>
                         (case get_list h a of
                            None \<Rightarrow> None
                          | Some rules \<Rightarrow> Some (h[a := ListObj (rules @ [new_rule])]))))))"

text \<open>
  The three statements of the loop body in turn. A lookup of a key that a dictionary does
  not have would raise \<^verbatim>\<open>KeyError\<close>; after the two tests it cannot happen, and it is
  \<open>None\<close> here.
\<close>

definition add_rule :: "FirewallRule \<Rightarrow> nat \<Rightarrow> store \<Rightarrow> store option" where
  "add_rule new_rule config h =
     (case ensure_table (table new_rule) config h of
        None \<Rightarrow> None
      | Some h1 \<Rightarrow>
          (case ensure_chain (table new_rule) (chain new_rule) config h1 of
             None \<Rightarrow> None
           | Some h2 \<Rightarrow> append_to_chain new_rule config h2))"

fun add_rules :: "FirewallRule list \<Rightarrow> nat \<Rightarrow> store \<Rightarrow> store option" where
  "add_rules [] config h = Some h"
| "add_rules (new_rule # rest) config h =
     (case add_rule new_rule config h of
        None \<Rightarrow> None
      | Some h1 \<Rightarrow> add_rules rest config h1)"

definition apply_add_recommendation :: "nat \<Rightarrow> Recommendation \<Rightarrow> store \<Rightarrow> store option" where
  "apply_add_recommendation config r h = add_rules (new_rules r) config h"

text \<open>
  \<^verbatim>\<open>sorted(plan.recommendations, key=lambda x: x.priority.value, reverse=True)\<close>: a
  stable sort by descending priority.
\<close>

definition sorted_recs :: "OptimizationPlan \<Rightarrow> Recommendation list" where
  "sorted_recs plan = sort_key (\<lambda>x. - priority_value (priority x)) (recommendations plan)"

fun apply_recs :: "Recommendation list \<Rightarrow> nat \<Rightarrow> store \<Rightarrow> store option" where
  "apply_recs [] config h = Some h"
| "apply_recs (r # rest) config h =
     (case (if rec_type r = DELETE_RULE then apply_delete_recommendation config r h
            else if rec_type r = ADD_RULE then apply_add_recommendation config r h
            else Some h) of
        None \<Rightarrow> None
      | Some h1 \<Rightarrow> apply_recs rest config h1)"

definition generate_optimized_config :: "store \<Rightarrow> nat \<Rightarrow> OptimizationPlan \<Rightarrow> (nat \<times> store) option" where
  "generate_optimized_config h original_config plan =
     (case deepcopy h original_config of
        None \<Rightarrow> None
      | Some (optimized_config, h1) \<Rightarrow>
          (case apply_recs (sorted_recs plan) optimized_config h1 of
             None \<Rightarrow> None
           | Some h2 \<Rightarrow> Some (optimized_config, h2)))"

subsection \<open>Policies in the store and their values\<close>

text \<open>The value of the policy at an address: its tables, chains and rules.\<close>

fun read_chains :: "store \<Rightarrow> (string \<times> nat) list \<Rightarrow> chains_dict option" where
  "read_chains h [] = Some []"
| "read_chains h ((chain_name, a) # rest) =
     (case get_list h a of
        None \<Rightarrow> None
      | Some rules \<Rightarrow>
          (case read_chains h rest of
             None \<Rightarrow> None
           | Some v \<Rightarrow> Some ((chain_name, rules) # v)))"

fun read_tables :: "store \<Rightarrow> (string \<times> nat) list \<Rightarrow> tables_dict option" where
  "read_tables h [] = Some []"
| "read_tables h ((table_name, d) # rest) =
     (case get_dict h d of
        None \<Rightarrow> None
      | Some chs \<Rightarrow>
          (case read_chains h chs of
             None \<Rightarrow> None
           | Some cv \<Rightarrow>
               (case read_tables h rest of
                  None \<Rightarrow> None
                | Some v \<Rightarrow> Some ((table_name, cv) # v))))"

definition read_config :: "store \<Rightarrow> nat \<Rightarrow> tables_dict option" where
  "read_config h config =
     (case get_dict h config of
        None \<Rightarrow> None
      | Some tbls \<Rightarrow> read_tables h tbls)"

text \<open>
  The addresses of the objects of a policy, and the policies no two of whose names stand
  for the same object.
\<close>

definition table_addrs :: "store \<Rightarrow> (string \<times> nat) list \<Rightarrow> nat list" where
  "table_addrs h tbls =
     concat (map (\<lambda>(table_name, d).
       d # (case get_dict h d of None \<Rightarrow> [] | Some chs \<Rightarrow> map snd chs)) tbls)"

definition config_addrs :: "store \<Rightarrow> nat \<Rightarrow> nat list" where
  "config_addrs h config =
     config # (case get_dict h config of None \<Rightarrow> [] | Some tbls \<Rightarrow> table_addrs h tbls)"

definition unshared :: "store \<Rightarrow> nat \<Rightarrow> bool" where
  "unshared h config = distinct (config_addrs h config)"

text \<open>The same steps on the value of a policy.\<close>

fun remove_from_chains :: "FirewallRule \<Rightarrow> chains_dict \<Rightarrow> chains_dict" where
  "remove_from_chains rule [] = []"
| "remove_from_chains rule ((chain_name, rules) # rest) =
     (if rule \<in> set rules then (chain_name, remove1 rule rules) # rest
      else (chain_name, rules) # remove_from_chains rule rest)"

definition remove_rule :: "FirewallRule \<Rightarrow> tables_dict \<Rightarrow> tables_dict" where
  "remove_rule rule v = map (\<lambda>(table_name, cv). (table_name, remove_from_chains rule cv)) v"

text \<open>A change of the value under the first entry of a dictionary with a given key.\<close>

fun on_first :: "string \<Rightarrow> ('v \<Rightarrow> 'v) \<Rightarrow> (string \<times> 'v) list \<Rightarrow> (string \<times> 'v) list" where
  "on_first k f [] = []"
| "on_first k f ((k', x) # rest) =
     (if k' = k then (k', f x) # rest else (k', x) # on_first k f rest)"

definition ensure_table_value :: "string \<Rightarrow> tables_dict \<Rightarrow> tables_dict" where
  "ensure_table_value table_name v = (if map_of v table_name = None then v @ [(table_name, [])] else v)"

definition ensure_chain_value :: "string \<Rightarrow> string \<Rightarrow> tables_dict \<Rightarrow> tables_dict" where
  "ensure_chain_value table_name chain_name v =
     on_first table_name
       (\<lambda>cv. if map_of cv chain_name = None then cv @ [(chain_name, [])] else cv) v"

definition append_value :: "FirewallRule \<Rightarrow> tables_dict \<Rightarrow> tables_dict" where
  "append_value new_rule v =
     on_first (table new_rule) (on_first (chain new_rule) (\<lambda>rules. rules @ [new_rule])) v"

definition append_rule :: "FirewallRule \<Rightarrow> tables_dict \<Rightarrow> tables_dict" where
  "append_rule new_rule v =
     append_value new_rule
       (ensure_chain_value (table new_rule) (chain new_rule)
          (ensure_table_value (table new_rule) v))"

definition apply_rec_value :: "Recommendation \<Rightarrow> tables_dict \<Rightarrow> tables_dict" where
  "apply_rec_value r v =
     (if rec_type r = DELETE_RULE then fold remove_rule (rec_affected_rules r) v
      else if rec_type r = ADD_RULE then fold append_rule (new_rules r) v
      else v)"

definition applied_value :: "OptimizationPlan \<Rightarrow> tables_dict \<Rightarrow> tables_dict" where
  "applied_value plan v = fold apply_rec_value (sorted_recs plan) v"

text \<open>The rules of a chain of a table in the value of a policy; none when it has no such chain.\<close>

definition rules_of :: "tables_dict \<Rightarrow> string \<Rightarrow> string \<Rightarrow> FirewallRule list" where
  "rules_of v table_name chain_name =
     (case map_of v table_name of
        None \<Rightarrow> []
      | Some cv \<Rightarrow> (case map_of cv chain_name of None \<Rightarrow> [] | Some rules \<Rightarrow> rules))"

text \<open>The plan restricted to its delete-rule recommendations.\<close>

definition delete_only :: "OptimizationPlan \<Rightarrow> OptimizationPlan" where
  "delete_only plan =
     plan\<lparr>recommendations := filter (\<lambda>r. rec_type r = DELETE_RULE) (recommendations plan)\<rparr>"

text \<open>
  A store \<open>h'\<close> extends \<open>h\<close> and differs from it, on the addresses of \<open>h\<close>, at most at
  the addresses in \<open>W\<close>.
\<close>

definition frame :: "nat set \<Rightarrow> store \<Rightarrow> store \<Rightarrow> bool" where
  "frame W h h' = (length h \<le> length h' \<and> (\<forall>b<length h. b \<notin> W \<longrightarrow> h' ! b = h ! b))"

text \<open>
  No table of a policy holds two equal rules, in one chain or in two; and a rule that no
  chain of a policy holds.
\<close>

definition no_equal_rules :: "tables_dict \<Rightarrow> bool" where
  "no_equal_rules v = (\<forall>(table_name, cv)\<in>set v. distinct (concat (map snd cv)))"

definition rule_absent :: "FirewallRule \<Rightarrow> tables_dict \<Rightarrow> bool" where
  "rule_absent r v = (\<forall>(table_name, cv)\<in>set v. r \<notin> set (concat (map snd cv)))"

text \<open>A plan of given recommendations, and a recommendation to delete one rule.\<close>

definition plan_of :: "Recommendation list \<Rightarrow> OptimizationPlan" where
  "plan_of recs = new_OptimizationPlan\<lparr>recommendations := recs\<rparr>"

definition delete_recommendation :: "FirewallRule \<Rightarrow> Recommendation" where
  "delete_recommendation r =
     \<lparr>rec_type = DELETE_RULE, priority = PRIORITY_MEDIUM, title = ''Remove rule'',
      rec_description = [], rec_affected_rules = [r], new_rules = [],
      implementation_notes = [], risk_level = ''low'', estimated_impact = []\<rparr>"

text \<open>
  Two policies in a store, each with the single chain INPUT of the table filter: one with
  the rule \<^verbatim>\<open>-A INPUT -j DROP\<close> of line 1 twice, one with the three rules of the first
  scenario.
\<close>

definition duplicate_drop_store :: store where
  "duplicate_drop_store =
     [DictObj [(''filter'', 1)], DictObj [(''INPUT'', 2)],
      ListObj [drop_all_rule 1, drop_all_rule 1]]"

definition three_rule_store :: store where
  "three_rule_store =
     [DictObj [(''filter'', 1)], DictObj [(''INPUT'', 2)],
      ListObj [accept_tcp_rule ''22'' 1, accept_tcp_rule ''22'' 2, drop_all_rule 3]]"

text \<open>
  The rules of every chain of \<open>v'\<close> are rules of the same chain of \<open>v\<close>, in the order they
  have there, followed by rules out of \<open>new\<close>.
\<close>

definition kept_then_added :: "FirewallRule set \<Rightarrow> tables_dict \<Rightarrow> tables_dict \<Rightarrow> bool" where
  "kept_then_added new v v' =
     (\<forall>table_name chain_name. \<exists>kept added.
        rules_of v' table_name chain_name = kept @ added \<and>
        subseq kept (rules_of v table_name chain_name) \<and> set added \<subseteq> new)"

text \<open>
  A plan that adds the rule \<^verbatim>\<open>-A FORWARD -j DROP\<close> and deletes the second rule of the
  first scenario.
\<close>

definition add_and_delete_plan :: OptimizationPlan where
  "add_and_delete_plan =
     plan_of [default_drop_recommendation ''filter'' ''FORWARD'',
              delete_recommendation (accept_tcp_rule ''22'' 2)]"

section \<open>Scores are the stated closed forms\<close>

lemma efficiency_loop_closed:
  "efficiency_loop xs b =
     b - 5 * int (length (filter (\<lambda>i. issue_type i = REDUNDANT) xs))
       - 3 * int (length (filter (\<lambda>i. issue_type i = INEFFICIENT_ORDER) xs))
       - 4 * int (length (filter (\<lambda>i. issue_type i = UNREACHABLE) xs))"
  by (induction xs arbitrary: b) auto

lemma security_loop_closed:
  "security_loop xs b =
     b - 20 * int (length (filter (\<lambda>i. issue_type i = SECURITY_RISK \<and> severity i = CRITICAL) xs))
       - 15 * int (length (filter (\<lambda>i. issue_type i = SECURITY_RISK \<and> severity i = HIGH) xs))
       - 10 * int (length (filter (\<lambda>i. issue_type i = SECURITY_RISK \<and> severity i = MEDIUM) xs))
       - 8 * int (length (filter (\<lambda>i. issue_type i = OVERLY_PERMISSIVE) xs))"
  by (induction xs arbitrary: b) auto

text \<open>
  C5. The efficiency score is 100 minus 5 per redundant, 3 per inefficient-order and 4
  per unreachable issue, and the security score is 100 minus 20, 15 or 10 per
  security-risk issue of critical, high or medium severity and 8 per overly-permissive
  issue; both are clamped to the interval from 0 to 100.
\<close>

theorem C5_scores_closed_form:
  "calculate_efficiency_score result =
     max 0 (min 100
       (100 - 5 * int (length (get_issues_by_type result REDUNDANT))
            - 3 * int (length (get_issues_by_type result INEFFICIENT_ORDER))
            - 4 * int (length (get_issues_by_type result UNREACHABLE))))
   \<and> calculate_security_score result =
     max 0 (min 100
       (100 - 20 * int (length (filter (\<lambda>i. severity i = CRITICAL) (get_issues_by_type result SECURITY_RISK)))
            - 15 * int (length (filter (\<lambda>i. severity i = HIGH) (get_issues_by_type result SECURITY_RISK)))
            - 10 * int (length (filter (\<lambda>i. severity i = MEDIUM) (get_issues_by_type result SECURITY_RISK)))
            - 8 * int (length (get_issues_by_type result OVERLY_PERMISSIVE))))
   \<and> 0 \<le> calculate_efficiency_score result \<and> calculate_efficiency_score result \<le> 100
   \<and> 0 \<le> calculate_security_score result \<and> calculate_security_score result \<le> 100"
  unfolding calculate_efficiency_score_def calculate_security_score_def get_issues_by_type_def
  by (simp add: efficiency_loop_closed security_loop_closed conj_commute)

section \<open>The scenario of two identical accept rules followed by a drop rule\<close>

lemmas scenario_rule_defs = accept_tcp_rule_def drop_all_rule_def new_FirewallRule_def post_init_def

lemma signature_accept_22:
  "create_rule_signature (accept_tcp_rule ''22'' n) = ''INPUT|ACCEPT|tcp||||22|||''"
  by (simp add: create_rule_signature_def scenario_rule_defs or_empty_def)

lemma signature_drop_all: "create_rule_signature (drop_all_rule n) = ''INPUT|DROP||||||||''"
  by (simp add: create_rule_signature_def scenario_rule_defs or_empty_def)

lemma scenario_redundant:
  "check_redundant_rules [accept_tcp_rule ''22'' 1, accept_tcp_rule ''22'' 2, drop_all_rule 3] r
   = add_issue r (redundant_issue (accept_tcp_rule ''22'' 1) (accept_tcp_rule ''22'' 2))"
  by (simp add: check_redundant_rules_def signature_accept_22 signature_drop_all)

lemma conflict_accept_accept:
  "rules_conflict ipn (accept_tcp_rule p n) (accept_tcp_rule q m) = Inr False"
  by (simp add: rules_conflict_def scenario_rule_defs)

lemma conflict_accept_drop:
  "rules_conflict ipn (accept_tcp_rule p n) (drop_all_rule m) = Inr True"
  by (simp add: rules_conflict_def rules_match_same_traffic_def match_criteria_def
      criterion_overlaps_def bind_result_def terminal_targets_def scenario_rule_defs)

lemma scenario_conflicting:
  "check_conflicting_rules ipn [accept_tcp_rule ''22'' 1, accept_tcp_rule ''22'' 2, drop_all_rule 3] r
   = Inr (add_issue (add_issue r (conflicting_issue (accept_tcp_rule ''22'' 1) (drop_all_rule 3)))
            (conflicting_issue (accept_tcp_rule ''22'' 2) (drop_all_rule 3)))"
  by (simp add: check_conflicting_rules_def conflict_accept_accept conflict_accept_drop bind_result_def)

lemma restrictions_scenario:
  "restrictions (accept_tcp_rule p n) = 2" "restrictions (drop_all_rule m) = 0"
  by (simp_all add: restrictions_def scenario_rule_defs)

lemma scenario_ordering:
  "check_rule_ordering [accept_tcp_rule ''22'' 1, accept_tcp_rule ''22'' 2, drop_all_rule 3] r = r"
  by (simp add: check_rule_ordering_def is_more_general_def restrictions_scenario)

lemma port_bounds_22: "port_bounds int_reader ''22'' = Inr (22, 22)"
  by (simp add: port_bounds_def py_int_def int_reader_def numeral_value_def digit_of_def bind_result_def)

lemma covers_accept_accept:
  "rule_covers_completely ipn int_reader (accept_tcp_rule ''22'' n) (accept_tcp_rule ''22'' m) = Inr True"
  by (simp add: rule_covers_completely_def cover_criteria_def check_func_def port_contains_def
      port_bounds_22 bind_result_def except_ValueError_def scenario_rule_defs)

lemma covers_accept_drop:
  "rule_covers_completely ipn toi (accept_tcp_rule p n) (drop_all_rule m) = Inr False"
  by (simp add: rule_covers_completely_def cover_criteria_def check_func_def bind_result_def
      scenario_rule_defs)

lemma scenario_unreachable:
  "check_unreachable_rules ipn int_reader
     [accept_tcp_rule ''22'' 1, accept_tcp_rule ''22'' 2, drop_all_rule 3] r
   = Inr (add_issue r (unreachable_issue (accept_tcp_rule ''22'' 1) (accept_tcp_rule ''22'' 2)))"
  by (simp add: check_unreachable_rules_def covers_accept_accept covers_accept_drop bind_result_def
      terminal_targets_def)
     (simp add: scenario_rule_defs)

lemma scenario_security:
  "check_security_issues [accept_tcp_rule ''22'' 1, accept_tcp_rule ''22'' 2, drop_all_rule 3] r
   = add_issue (add_issue (add_issue r (security_risk_issue (accept_tcp_rule ''22'' 1)))
        (security_risk_issue (accept_tcp_rule ''22'' 2))) (missing_log_issue (drop_all_rule 3))"
  by (simp add: scenario_rule_defs Let_def)

lemma scenario_permissive:
  "check_permissive_rules [accept_tcp_rule ''22'' 1, accept_tcp_rule ''22'' 2, drop_all_rule 3] r = r"
  by (simp add: scenario_rule_defs truthy_def)

lemma scenario_checks:
  "run_checks ipn int_reader [accept_tcp_rule ''22'' 1, accept_tcp_rule ''22'' 2, drop_all_rule 3] r
   = Inr (r\<lparr>issues := issues r @
        [redundant_issue (accept_tcp_rule ''22'' 1) (accept_tcp_rule ''22'' 2),
         conflicting_issue (accept_tcp_rule ''22'' 1) (drop_all_rule 3),
         conflicting_issue (accept_tcp_rule ''22'' 2) (drop_all_rule 3),
         unreachable_issue (accept_tcp_rule ''22'' 1) (accept_tcp_rule ''22'' 2),
         security_risk_issue (accept_tcp_rule ''22'' 1),
         security_risk_issue (accept_tcp_rule ''22'' 2),
         missing_log_issue (drop_all_rule 3)]\<rparr>)"
  by (simp add: run_checks_def scenario_redundant scenario_conflicting scenario_ordering
      scenario_unreachable scenario_security scenario_permissive bind_result_def add_issue_def
      del: check_security_issues.simps check_permissive_rules.simps)

lemma issue_fields:
  "issue_type (redundant_issue a b) = REDUNDANT" "affected_rules (redundant_issue a b) = [a, b]"
  "severity (redundant_issue a b) = MEDIUM"
  "issue_type (conflicting_issue a b) = CONFLICTING" "affected_rules (conflicting_issue a b) = [a, b]"
  "severity (conflicting_issue a b) = (if target a = ''DROP'' \<or> target b = ''DROP'' then HIGH else MEDIUM)"
  "issue_type (ordering_issue a b) = INEFFICIENT_ORDER" "affected_rules (ordering_issue a b) = [a, b]"
  "severity (ordering_issue a b) = MEDIUM"
  "issue_type (unreachable_issue a b) = UNREACHABLE" "affected_rules (unreachable_issue a b) = [a, b]"
  "severity (unreachable_issue a b) = MEDIUM"
  "issue_type (security_risk_issue a) = SECURITY_RISK" "affected_rules (security_risk_issue a) = [a]"
  "severity (security_risk_issue a) = HIGH"
  "issue_type (missing_log_issue a) = MISSING_LOG" "affected_rules (missing_log_issue a) = [a]"
  "severity (missing_log_issue a) = LOW"
  "issue_type (permissive_issue a) = OVERLY_PERMISSIVE" "affected_rules (permissive_issue a) = [a]"
  "severity (permissive_issue a) = HIGH"
  by (simp_all add: redundant_issue_def conflicting_issue_def ordering_issue_def
      unreachable_issue_def security_risk_issue_def missing_log_issue_def permissive_issue_def)

lemma scenario_analysis:
  "\<exists>st. analyze_configuration ipn int_reader (Some duplicate_ssh_policy) =
     Inr \<lparr>issues =
            [redundant_issue (accept_tcp_rule ''22'' 1) (accept_tcp_rule ''22'' 2),
             conflicting_issue (accept_tcp_rule ''22'' 1) (drop_all_rule 3),
             conflicting_issue (accept_tcp_rule ''22'' 2) (drop_all_rule 3),
             unreachable_issue (accept_tcp_rule ''22'' 1) (accept_tcp_rule ''22'' 2),
             security_risk_issue (accept_tcp_rule ''22'' 1),
             security_risk_issue (accept_tcp_rule ''22'' 2),
             missing_log_issue (drop_all_rule 3)],
          statistics = st, rule_efficiency_score = 91, security_score = 70\<rparr>"
  apply (simp add: analyze_configuration_def duplicate_ssh_policy_def config_of_input_chain_def
      scenario_checks bind_result_def new_AnalysisResult_def Let_def
      calculate_efficiency_score_def calculate_security_score_def issue_fields)
  done


text \<open>
  C1, as the code has it. For the policy of two identical rules
  \<^verbatim>\<open>-A INPUT -p tcp --dport 22 -j ACCEPT\<close> at lines 1 and 2 followed by
  \<^verbatim>\<open>-A INPUT -j DROP\<close> at line 3, the analysis returns; it reports exactly one redundant
  issue, with evidence (line-1 rule, line-2 rule); it reports exactly one unreachable
  issue, which flags the line-2 rule as shadowed by its identical predecessor at line 1
  (evidence (line-1 rule, line-2 rule)); and the efficiency score is 100 - 5 - 4 = 91.
\<close>

theorem C1_duplicate_ssh_analysis:
  "(case analyze_configuration ipv4_reader int_reader (Some duplicate_ssh_policy) of
      Inl e \<Rightarrow> False
    | Inr result \<Rightarrow>
        map affected_rules (get_issues_by_type result REDUNDANT)
          = [[accept_tcp_rule ''22'' 1, accept_tcp_rule ''22'' 2]]
        \<and> map affected_rules (get_issues_by_type result UNREACHABLE)
          = [[accept_tcp_rule ''22'' 1, accept_tcp_rule ''22'' 2]]
        \<and> get_issues_by_type result INEFFICIENT_ORDER = []
        \<and> rule_efficiency_score result = 91)"
proof -
  obtain st where "analyze_configuration ipv4_reader int_reader (Some duplicate_ssh_policy) =
     Inr \<lparr>issues =
            [redundant_issue (accept_tcp_rule ''22'' 1) (accept_tcp_rule ''22'' 2),
             conflicting_issue (accept_tcp_rule ''22'' 1) (drop_all_rule 3),
             conflicting_issue (accept_tcp_rule ''22'' 2) (drop_all_rule 3),
             unreachable_issue (accept_tcp_rule ''22'' 1) (accept_tcp_rule ''22'' 2),
             security_risk_issue (accept_tcp_rule ''22'' 1),
             security_risk_issue (accept_tcp_rule ''22'' 2),
             missing_log_issue (drop_all_rule 3)],
          statistics = st, rule_efficiency_score = 91, security_score = 70\<rparr>"
    using scenario_analysis by blast
  then show ?thesis
    by (simp add: get_issues_by_type_def issue_fields)
qed

text \<open>
  The claim as stated fails on this policy: an unreachable issue is reported for the rule
  at line 2, and the efficiency score is 91, not 95.
\<close>

theorem C1_counterexample:
  "(case analyze_configuration ipv4_reader int_reader (Some duplicate_ssh_policy) of
      Inl e \<Rightarrow> False
    | Inr result \<Rightarrow>
        [accept_tcp_rule ''22'' 1, accept_tcp_rule ''22'' 2]
          \<in> set (map affected_rules (get_issues_by_type result UNREACHABLE))
        \<and> rule_efficiency_score result \<noteq> 95)"
proof -
  obtain st where "analyze_configuration ipv4_reader int_reader (Some duplicate_ssh_policy) =
     Inr \<lparr>issues =
            [redundant_issue (accept_tcp_rule ''22'' 1) (accept_tcp_rule ''22'' 2),
             conflicting_issue (accept_tcp_rule ''22'' 1) (drop_all_rule 3),
             conflicting_issue (accept_tcp_rule ''22'' 2) (drop_all_rule 3),
             unreachable_issue (accept_tcp_rule ''22'' 1) (accept_tcp_rule ''22'' 2),
             security_risk_issue (accept_tcp_rule ''22'' 1),
             security_risk_issue (accept_tcp_rule ''22'' 2),
             missing_log_issue (drop_all_rule 3)],
          statistics = st, rule_efficiency_score = 91, security_score = 70\<rparr>"
    using scenario_analysis by blast
  then show ?thesis
    by (simp add: get_issues_by_type_def issue_fields)
qed

section \<open>The unreachable check\<close>

lemma bind_result_Inr: "bind_result r f = Inr y \<longleftrightarrow> (\<exists>v. r = Inr v \<and> f v = Inr y)"
  by (cases r) (auto simp: bind_result_def)

lemma unreachable_inner_result:
  "unreachable_inner ipn toi es r res = Inr res' \<Longrightarrow>
   (res' = res \<and> (\<forall>e\<in>set es. \<not> shadows ipn toi e r)) \<or>
   (\<exists>pre e post. es = pre @ e # post \<and> (\<forall>x\<in>set pre. \<not> shadows ipn toi x r) \<and>
      shadows ipn toi e r \<and> res' = add_issue res (unreachable_issue e r))"
proof (induction es)
  case Nil
  then show ?case by simp
next
  case (Cons e es)
  from Cons.prems obtain c where c: "rule_covers_completely ipn toi e r = Inr c"
    and rest: "(if c \<and> target e \<in> set terminal_targets
       then Inr (add_issue res (unreachable_issue e r))
       else unreachable_inner ipn toi es r res) = Inr res'"
    by (auto simp: bind_result_Inr)
  show ?case
  proof (cases "c \<and> target e \<in> set terminal_targets")
    case True
    with c rest have "shadows ipn toi e r" "res' = add_issue res (unreachable_issue e r)"
      by (auto simp: shadows_def)
    then have "e # es = [] @ e # es \<and> (\<forall>x\<in>set []. \<not> shadows ipn toi x r) \<and>
      shadows ipn toi e r \<and> res' = add_issue res (unreachable_issue e r)" by simp
    then show ?thesis by blast
  next
    case False
    with c have ns: "\<not> shadows ipn toi e r" by (auto simp: shadows_def)
    from False rest have "unreachable_inner ipn toi es r res = Inr res'"
      by (auto split: if_splits)
    from Cons.IH[OF this] show ?thesis
    proof
      assume "res' = res \<and> (\<forall>e\<in>set es. \<not> shadows ipn toi e r)"
      with ns show ?thesis by simp
    next
      assume "\<exists>pre e post. es = pre @ e # post \<and> (\<forall>x\<in>set pre. \<not> shadows ipn toi x r) \<and>
         shadows ipn toi e r \<and> res' = add_issue res (unreachable_issue e r)"
      then obtain pre x post where h: "es = pre @ x # post" "\<forall>y\<in>set pre. \<not> shadows ipn toi y r"
        "shadows ipn toi x r" "res' = add_issue res (unreachable_issue x r)" by blast
      then have "e # es = (e # pre) @ x # post \<and> (\<forall>y\<in>set (e # pre). \<not> shadows ipn toi y r) \<and>
        shadows ipn toi x r \<and> res' = add_issue res (unreachable_issue x r)" using ns by simp
      then show ?thesis by blast
    qed
  qed
qed

lemma unreachable_inner_reported:
  assumes "unreachable_inner ipn toi earlier r res = Inr res'"
  shows "\<exists>xs. issues res' = issues res @ xs \<and> reported_for ipn toi (earlier @ r # rest) (length earlier) xs"
proof -
  from unreachable_inner_result[OF assms] show ?thesis
  proof
    assume h: "res' = res \<and> (\<forall>e\<in>set earlier. \<not> shadows ipn toi e r)"
    then have "reported_for ipn toi (earlier @ r # rest) (length earlier) []"
      by (auto simp: reported_for_def nth_append)
    with h show ?thesis by auto
  next
    assume "\<exists>pre e post. earlier = pre @ e # post \<and> (\<forall>x\<in>set pre. \<not> shadows ipn toi x r) \<and>
      shadows ipn toi e r \<and> res' = add_issue res (unreachable_issue e r)"
    then obtain pre e post where h: "earlier = pre @ e # post" "\<forall>x\<in>set pre. \<not> shadows ipn toi x r"
      "shadows ipn toi e r" "res' = add_issue res (unreachable_issue e r)" by blast
    have a: "(earlier @ r # rest) ! length pre = e" using h(1) by (simp add: nth_append)
    have b: "(earlier @ r # rest) ! length earlier = r" by simp
    have c: "\<forall>k<length pre. (earlier @ r # rest) ! k = pre ! k" using h(1) by (simp add: nth_append)
    have d: "length pre < length earlier" using h(1) by simp
    have "reported_for ipn toi (earlier @ r # rest) (length earlier) [unreachable_issue e r]"
      unfolding reported_for_def using a b c d h(2,3) 
      by (intro disjI2 exI[of _ "length pre"]) auto
    with h(4) show ?thesis by (auto simp: add_issue_def)
  qed
qed

lemma unreachable_outer_result:
  "unreachable_outer ipn toi earlier rest res = Inr res' \<Longrightarrow>
   \<exists>per_rule. length per_rule = length rest \<and> issues res' = issues res @ concat per_rule \<and>
     (\<forall>i<length rest. reported_for ipn toi (earlier @ rest) (length earlier + i) (per_rule ! i))"
proof (induction rest arbitrary: earlier res)
  case Nil
  then show ?case by simp
next
  case (Cons r rest)
  from Cons.prems obtain mid where m: "unreachable_inner ipn toi earlier r res = Inr mid"
    and o: "unreachable_outer ipn toi (earlier @ [r]) rest mid = Inr res'"
    by (auto simp: bind_result_Inr)
  from unreachable_inner_reported[OF m, of rest] obtain xs where
    xs: "issues mid = issues res @ xs" "reported_for ipn toi (earlier @ r # rest) (length earlier) xs"
    by blast
  from Cons.IH[OF o] obtain pr where pr: "length pr = length rest"
    "issues res' = issues mid @ concat pr"
    "\<forall>i<length rest. reported_for ipn toi ((earlier @ [r]) @ rest) (length (earlier @ [r]) + i) (pr ! i)"
    by blast
  have "\<forall>i<length (r # rest). reported_for ipn toi (earlier @ r # rest) (length earlier + i) ((xs # pr) ! i)"
  proof (intro allI impI)
    fix i assume "i < length (r # rest)"
    show "reported_for ipn toi (earlier @ r # rest) (length earlier + i) ((xs # pr) ! i)"
    proof (cases i)
      case 0
      then show ?thesis using xs(2) by simp
    next
      case (Suc i')
      with \<open>i < length (r # rest)\<close> have "i' < length rest" by simp
      with pr(3) have "reported_for ipn toi ((earlier @ [r]) @ rest) (length (earlier @ [r]) + i') (pr ! i')"
        by blast
      then show ?thesis using Suc by simp
    qed
  qed
  moreover have "length (xs # pr) = length (r # rest)" using pr(1) by simp
  moreover have "issues res' = issues res @ concat (xs # pr)" using xs(1) pr(2) by simp
  ultimately show ?case by blast
qed

text \<open>
  C2, as the code has it. For every position \<open>i\<close> of a chain the unreachable check adds
  at most one issue; it adds none exactly when no earlier rule covers the rule completely
  with a terminal target; and an added issue has type unreachable, severity medium and
  evidence (earlier rule, rule), where the earlier rule is the covering terminal rule of
  least position: the scan runs from the start of the chain and stops at the first hit,
  so the covering rule farthest before the rule is reported, not the nearest one.
\<close>

theorem C2_earliest_covering_predecessor: 
  assumes "check_unreachable_rules ipn toi rules result = Inr result'"
  shows "\<exists>per_rule. length per_rule = length rules \<and>
           issues result' = issues result @ concat per_rule \<and>
           (\<forall>i<length rules.
              length (per_rule ! i) \<le> 1 \<and>
              (per_rule ! i = [] \<longrightarrow> (\<forall>j<i. \<not> shadows ipn toi (rules ! j) (rules ! i))) \<and>
              (\<forall>x\<in>set (per_rule ! i).
                 issue_type x = UNREACHABLE \<and> severity x = MEDIUM \<and>
                 (\<exists>j<i. affected_rules x = [rules ! j, rules ! i] \<and>
                        shadows ipn toi (rules ! j) (rules ! i) \<and>
                        (\<forall>k<j. \<not> shadows ipn toi (rules ! k) (rules ! i)))))"
proof -
  from assms have "unreachable_outer ipn toi [] rules result = Inr result'"
    by (simp add: check_unreachable_rules_def)
  from unreachable_outer_result[OF this] obtain pr where pr: "length pr = length rules"
    "issues result' = issues result @ concat pr"
    "\<forall>i<length rules. reported_for ipn toi rules i (pr ! i)" by auto
  have "\<forall>i<length rules.
              length (pr ! i) \<le> 1 \<and>
              (pr ! i = [] \<longrightarrow> (\<forall>j<i. \<not> shadows ipn toi (rules ! j) (rules ! i))) \<and>
              (\<forall>x\<in>set (pr ! i).
                 issue_type x = UNREACHABLE \<and> severity x = MEDIUM \<and>
                 (\<exists>j<i. affected_rules x = [rules ! j, rules ! i] \<and>
                        shadows ipn toi (rules ! j) (rules ! i) \<and>
                        (\<forall>k<j. \<not> shadows ipn toi (rules ! k) (rules ! i))))"
  proof (intro allI impI)
    fix i assume "i < length rules"
    with pr(3) have "reported_for ipn toi rules i (pr ! i)" by blast
    then show "length (pr ! i) \<le> 1 \<and>
              (pr ! i = [] \<longrightarrow> (\<forall>j<i. \<not> shadows ipn toi (rules ! j) (rules ! i))) \<and>
              (\<forall>x\<in>set (pr ! i).
                 issue_type x = UNREACHABLE \<and> severity x = MEDIUM \<and>
                 (\<exists>j<i. affected_rules x = [rules ! j, rules ! i] \<and>
                        shadows ipn toi (rules ! j) (rules ! i) \<and>
                        (\<forall>k<j. \<not> shadows ipn toi (rules ! k) (rules ! i))))"
      unfolding reported_for_def by (auto simp: issue_fields)
  qed
  with pr(1,2) show ?thesis by blast
qed

lemmas shadow_rule_defs = drop_eth0_rule_def drop_tcp_rule_def accept_eth0_http_rule_def
  new_FirewallRule_def post_init_def

lemmas cover_defs = rule_covers_completely_def cover_criteria_def check_func_def bind_result_def

lemma shadow_covers:
  "rule_covers_completely ipn toi drop_eth0_rule drop_tcp_rule = Inr False"
  "rule_covers_completely ipn toi drop_eth0_rule accept_eth0_http_rule = Inr True"
  "rule_covers_completely ipn toi drop_tcp_rule accept_eth0_http_rule = Inr True"
  by (simp_all add: cover_defs shadow_rule_defs)

lemma shadow_targets:
  "target drop_eth0_rule \<in> set terminal_targets" "target drop_tcp_rule \<in> set terminal_targets"
  by (simp_all add: shadow_rule_defs terminal_targets_def)

lemma shadow_chain_unreachable:
  "check_unreachable_rules ipn toi [drop_eth0_rule, drop_tcp_rule, accept_eth0_http_rule] r
   = Inr (add_issue r (unreachable_issue drop_eth0_rule accept_eth0_http_rule))"
  by (simp add: check_unreachable_rules_def shadow_covers shadow_targets bind_result_def)

text \<open>The theorem at the chain of three rules, whose hypothesis holds there.\<close>

theorem C2_witness:
  "check_unreachable_rules ipv4_reader int_reader
     [drop_eth0_rule, drop_tcp_rule, accept_eth0_http_rule] new_AnalysisResult
   = Inr (add_issue new_AnalysisResult (unreachable_issue drop_eth0_rule accept_eth0_http_rule))
   \<and> (\<exists>per_rule. length per_rule = 3 \<and>
         issues (add_issue new_AnalysisResult (unreachable_issue drop_eth0_rule accept_eth0_http_rule))
           = issues new_AnalysisResult @ concat per_rule \<and>
         (\<forall>i<3. length (per_rule ! i) \<le> 1))"
proof -
  have h: "check_unreachable_rules ipv4_reader int_reader
     [drop_eth0_rule, drop_tcp_rule, accept_eth0_http_rule] new_AnalysisResult
   = Inr (add_issue new_AnalysisResult (unreachable_issue drop_eth0_rule accept_eth0_http_rule))"
    by (rule shadow_chain_unreachable)
  from C2_earliest_covering_predecessor[OF h] obtain pr where
    "length pr = length [drop_eth0_rule, drop_tcp_rule, accept_eth0_http_rule]"
    "issues (add_issue new_AnalysisResult (unreachable_issue drop_eth0_rule accept_eth0_http_rule))
           = issues new_AnalysisResult @ concat pr"
    "\<forall>i<length [drop_eth0_rule, drop_tcp_rule, accept_eth0_http_rule]. length (pr ! i) \<le> 1"
    by blast
  then have "length pr = 3 \<and>
         issues (add_issue new_AnalysisResult (unreachable_issue drop_eth0_rule accept_eth0_http_rule))
           = issues new_AnalysisResult @ concat pr \<and>
         (\<forall>i<3. length (pr ! i) \<le> 1)" by simp
  with h show ?thesis by blast
qed

text \<open>
  On that chain the claim as stated fails: the rule at line 3 is shadowed by the rules at
  lines 1 and 2, the nearest covering predecessor is the rule at line 2, and the single
  issue names the rule at line 1.
\<close>

theorem C2_counterexample:
  "check_unreachable_rules ipv4_reader int_reader
     [drop_eth0_rule, drop_tcp_rule, accept_eth0_http_rule] new_AnalysisResult
   = Inr (add_issue new_AnalysisResult (unreachable_issue drop_eth0_rule accept_eth0_http_rule))
   \<and> nearest_covering_predecessor ipv4_reader int_reader
       [drop_eth0_rule, drop_tcp_rule, accept_eth0_http_rule] 2 = Some 1
   \<and> affected_rules (unreachable_issue drop_eth0_rule accept_eth0_http_rule)
       \<noteq> [[drop_eth0_rule, drop_tcp_rule, accept_eth0_http_rule] ! 1, accept_eth0_http_rule]"
proof -
  have "rev [0..<2] = [1, 0::nat]" by (simp add: numeral_2_eq_2)
  then have "nearest_covering_predecessor ipv4_reader int_reader
       [drop_eth0_rule, drop_tcp_rule, accept_eth0_http_rule] 2 = Some 1"
    by (simp add: nearest_covering_predecessor_def shadows_def shadow_covers shadow_targets)
  moreover have "drop_eth0_rule \<noteq> drop_tcp_rule"
    by (simp add: shadow_rule_defs)
  ultimately show ?thesis
    by (simp add: shadow_chain_unreachable issue_fields)
qed

section \<open>Absent fields of the later rule\<close>

lemma port_contains_absent: "port_contains toi (Some g) None = Inr False"
  by (simp add: port_contains_def)

lemma ip_contains_absent: "ip_contains ipn (Some g) None = Inr False"
  by (simp add: ip_contains_def except_ValueError_def)

lemma cover_loop_absent:
  assumes "(k, attr) \<in> set crits" "k = ByAddress \<or> k = ByPort"
    "attr general_rule \<noteq> None" "attr specific_rule = None"
  shows "cover_loop ipn toi crits general_rule specific_rule \<noteq> Inr True"
  using assms(1)
proof (induction crits)
  case Nil
  then show ?case by simp
next
  case (Cons c crits)
  obtain k' attr' where c: "c = (k', attr')" by (cases c)
  show ?case
  proof (cases "c = (k, attr)")
    case True
    from assms(3) obtain g where g: "attr general_rule = Some g" by auto
    have "check_func ipn toi k (attr general_rule) (attr specific_rule) = Inr False"
      using assms(2,4) g by (auto simp: check_func_def port_contains_absent ip_contains_absent)
    then show ?thesis using True by (simp add: bind_result_def)
  next
    case False
    with Cons.prems have "(k, attr) \<in> set crits" by simp
    from Cons.IH[OF this] show ?thesis
      by (cases "check_func ipn toi k' (attr' general_rule) (attr' specific_rule)")
         (auto simp: c bind_result_def)
  qed
qed

lemma covers_absent:
  assumes "(source_ip g \<noteq> None \<and> source_ip s = None) \<or>
           (destination_ip g \<noteq> None \<and> destination_ip s = None) \<or>
           (source_port g \<noteq> None \<and> source_port s = None) \<or>
           (destination_port g \<noteq> None \<and> destination_port s = None)"
  shows "rule_covers_completely ipn toi g s \<noteq> Inr True"
proof -
  have m: "(ByAddress, source_ip) \<in> set cover_criteria"
    "(ByAddress, destination_ip) \<in> set cover_criteria"
    "(ByPort, source_port) \<in> set cover_criteria"
    "(ByPort, destination_port) \<in> set cover_criteria"
    by (simp_all add: cover_criteria_def)
  from assms consider
      "source_ip g \<noteq> None" "source_ip s = None"
    | "destination_ip g \<noteq> None" "destination_ip s = None"
    | "source_port g \<noteq> None" "source_port s = None"
    | "destination_port g \<noteq> None" "destination_port s = None"
    by auto
  then show ?thesis
  proof cases
    case 1
    from cover_loop_absent[OF m(1) _ 1] show ?thesis by (simp add: rule_covers_completely_def)
  next
    case 2
    from cover_loop_absent[OF m(2) _ 2] show ?thesis by (simp add: rule_covers_completely_def)
  next
    case 3
    from cover_loop_absent[OF m(3) _ 3] show ?thesis by (simp add: rule_covers_completely_def)
  next
    case 4
    from cover_loop_absent[OF m(4) _ 4] show ?thesis by (simp add: rule_covers_completely_def)
  qed
qed

text \<open>
  C10. A concrete port specification never contains an absent one, and a concrete
  address specification never contains an absent one. So an earlier rule that restricts
  a source or destination address or port which the later rule leaves absent does not
  cover the later rule completely, and no issue that the unreachable check adds has such
  a pair as its evidence.
\<close>

theorem C10_absent_specific_not_covered:
  "port_contains toi (Some g) None = Inr False
   \<and> ip_contains ipn (Some g) None = Inr False
   \<and> (restricts_where_absent earlier_rule rule \<longrightarrow>
        rule_covers_completely ipn toi earlier_rule rule \<noteq> Inr True \<and>
        \<not> shadows ipn toi earlier_rule rule)
   \<and> (check_unreachable_rules ipn toi rules result = Inr result' \<longrightarrow>
        (\<forall>x\<in>set (drop (length (issues result)) (issues result')).
           \<exists>e r. affected_rules x = [e, r] \<and> \<not> restricts_where_absent e r))"
proof (intro conjI impI)
  show "port_contains toi (Some g) None = Inr False" by (rule port_contains_absent)
  show "ip_contains ipn (Some g) None = Inr False" by (rule ip_contains_absent)
next
  assume "restricts_where_absent earlier_rule rule"
  then show c: "rule_covers_completely ipn toi earlier_rule rule \<noteq> Inr True"
    unfolding restricts_where_absent_def by (rule covers_absent)
  then show "\<not> shadows ipn toi earlier_rule rule" by (simp add: shadows_def)
next
  assume "check_unreachable_rules ipn toi rules result = Inr result'"
  then have "unreachable_outer ipn toi [] rules result = Inr result'"
    by (simp add: check_unreachable_rules_def)
  from unreachable_outer_result[OF this] obtain pr where pr: "length pr = length rules"
    "issues result' = issues result @ concat pr"
    "\<forall>i<length rules. reported_for ipn toi rules i (pr ! i)" by auto
  show "\<forall>x\<in>set (drop (length (issues result)) (issues result')).
           \<exists>e r. affected_rules x = [e, r] \<and> \<not> restricts_where_absent e r"
  proof
    fix x assume "x \<in> set (drop (length (issues result)) (issues result'))"
    with pr(2) have "x \<in> set (concat pr)" by simp
    then obtain ys where "ys \<in> set pr" "x \<in> set ys" by auto
    then obtain i where i: "i < length pr" "x \<in> set (pr ! i)"
      by (metis in_set_conv_nth)
    with pr(1,3) have "reported_for ipn toi rules i (pr ! i)" by simp
    with i(2) obtain j where j: "x = unreachable_issue (rules ! j) (rules ! i)"
      "shadows ipn toi (rules ! j) (rules ! i)"
      by (auto simp: reported_for_def)
    from j(2) have "rule_covers_completely ipn toi (rules ! j) (rules ! i) = Inr True"
      by (simp add: shadows_def)
    with covers_absent[of "rules ! j" "rules ! i" ipn toi]
    have "\<not> restricts_where_absent (rules ! j) (rules ! i)"
      unfolding restricts_where_absent_def by blast
    with j(1) show "\<exists>e r. affected_rules x = [e, r] \<and> \<not> restricts_where_absent e r"
      by (auto simp: issue_fields)
  qed
qed

theorem C10_witness:
  "restricts_where_absent (accept_tcp_rule ''80'' 1) (drop_all_rule 2)
   \<and> check_unreachable_rules ipv4_reader int_reader
        [accept_tcp_rule ''80'' 1, drop_all_rule 2] new_AnalysisResult = Inr new_AnalysisResult
   \<and> port_contains int_reader (Some ''80'') None = Inr False
   \<and> ip_contains ipv4_reader (Some ''80'') None = Inr False
   \<and> rule_covers_completely ipv4_reader int_reader (accept_tcp_rule ''80'' 1) (drop_all_rule 2)
        \<noteq> Inr True
   \<and> \<not> shadows ipv4_reader int_reader (accept_tcp_rule ''80'' 1) (drop_all_rule 2)"
proof -
  have r: "restricts_where_absent (accept_tcp_rule ''80'' 1) (drop_all_rule 2)"
    by (simp add: restricts_where_absent_def scenario_rule_defs)
  have u: "check_unreachable_rules ipv4_reader int_reader
        [accept_tcp_rule ''80'' 1, drop_all_rule 2] new_AnalysisResult = Inr new_AnalysisResult"
    by (simp add: check_unreachable_rules_def covers_accept_drop bind_result_def)
  from r u C10_absent_specific_not_covered
    [of int_reader "''80''" ipv4_reader "accept_tcp_rule ''80'' 1" "drop_all_rule 2"
        "[accept_tcp_rule ''80'' 1, drop_all_rule 2]" new_AnalysisResult new_AnalysisResult]
  show ?thesis by blast
qed

section \<open>Empty and missing policies\<close>

lemma analyze_chains_empty:
  "\<forall>(c, rules)\<in>set chs. rules = [] \<Longrightarrow> analyze_chains ipn toi chs result = Inr result"
  by (induction chs) auto

lemma analyze_tables_empty:
  "\<forall>(t, chs)\<in>set tbls. \<forall>(c, rules)\<in>set chs. rules = [] \<Longrightarrow>
   analyze_tables ipn toi tbls result = Inr result"
  by (induction tbls) (auto simp: analyze_chains_empty bind_result_def)

text \<open>
  C4, as the code has it. Analysing a policy that has no rules (no tables, or only chains
  without rules) returns a result with no issues and with both scores equal to 100. A
  null policy is not such an input: the analysis raises on it.
\<close>

theorem C4_empty_policy:
  assumes "\<forall>(t, chs)\<in>set (tables config). \<forall>(c, rules)\<in>set chs. rules = []"
  shows "\<exists>result. analyze_configuration ipn toi (Some config) = Inr result \<and>
           issues result = [] \<and> rule_efficiency_score result = 100 \<and> security_score result = 100"
  using assms
  by (simp add: analyze_configuration_def analyze_tables_empty bind_result_def Let_def
      new_AnalysisResult_def calculate_efficiency_score_def calculate_security_score_def)

theorem C4_witness:
  "\<exists>result. analyze_configuration ipv4_reader int_reader
          (Some \<lparr>tables = [(''filter'', [(''INPUT'', []), (''FORWARD'', [])])],
                 chains = [], comments = []\<rparr>) = Inr result \<and>
        issues result = [] \<and> rule_efficiency_score result = 100 \<and> security_score result = 100"
proof -
  have h: "\<forall>(t, chs)\<in>set (tables \<lparr>tables = [(''filter'', [(''INPUT'', []), (''FORWARD'', [])])],
                                chains = [], comments = []\<rparr>).
      \<forall>(c, rules)\<in>set chs. rules = []"
    by simp
  from C4_empty_policy[OF h, of ipv4_reader int_reader] show ?thesis .
qed

text \<open>The claim as stated fails on the null policy: the analysis raises.\<close>

theorem C4_counterexample:
  "analyze_configuration ipv4_reader int_reader None = Inl AttributeError"
  by (simp add: analyze_configuration_def)

section \<open>The conflict check\<close>

lemma ip_ranges_overlap_total: "\<exists>b. ip_ranges_overlap ipn a c = Inr b"
  by (cases "ipn a"; cases "ipn c")
     (auto simp: ip_ranges_overlap_def ip_network_def bind_result_def except_ValueError_def)

lemma ip_ranges_overlap_unparsable:
  "ipn a = None \<or> ipn c = None \<Longrightarrow> ip_ranges_overlap ipn a c = Inr True"
  by (cases "ipn a"; cases "ipn c")
     (simp_all add: ip_ranges_overlap_def ip_network_def bind_result_def except_ValueError_def)

lemma criterion_text: "criterion_overlaps ipn False a b = Inr (text_compatible a b)"
  by (auto simp: criterion_overlaps_def text_compatible_def split: option.splits)

lemma criterion_address: "criterion_overlaps ipn True a b = Inr (address_compatible ipn a b)"
proof (cases a)
  case None then show ?thesis by (simp add: criterion_overlaps_def address_compatible_def)
next
  case (Some u)
  show ?thesis
  proof (cases b)
    case None with Some show ?thesis by (simp add: criterion_overlaps_def address_compatible_def)
  next
    case (Some v)
    obtain r where "ip_ranges_overlap ipn u v = Inr r" using ip_ranges_overlap_total by blast
    with \<open>a = Some u\<close> Some show ?thesis
      by (auto simp: criterion_overlaps_def address_compatible_def bind_result_def)
  qed
qed

lemma if_Inr_False: "(if c then Inr b else Inr False) = (Inr (c \<and> b) :: error + bool)"
  by simp

lemma bind_Inr: "bind_result (Inr v) f = f v"
  by (simp add: bind_result_def)

lemma rules_match_same_traffic_eq:
  "rules_match_same_traffic ipn r1 r2 =
     Inr (text_compatible (protocol r1) (protocol r2) \<and>
      address_compatible ipn (source_ip r1) (source_ip r2) \<and>
      address_compatible ipn (destination_ip r1) (destination_ip r2) \<and>
      text_compatible (source_port r1) (source_port r2) \<and>
      text_compatible (destination_port r1) (destination_port r2) \<and>
      text_compatible (interface_in r1) (interface_in r2) \<and>
      text_compatible (interface_out r1) (interface_out r2))"
  by (simp add: rules_match_same_traffic_def match_criteria_def criterion_text criterion_address
      bind_Inr if_Inr_False)

lemma rules_conflict_eq: "rules_conflict ipn r1 r2 = Inr (conflict_condition ipn r1 r2)"
  by (auto simp: rules_conflict_def rules_match_same_traffic_eq bind_Inr conflict_condition_def)

lemma conflict_inner_eq:
  "conflict_inner ipn r1 rest res =
     Inr (res\<lparr>issues := issues res @
        concat (map (\<lambda>r2. if conflict_condition ipn r1 r2 then [conflicting_issue r1 r2] else []) rest)\<rparr>)"
  by (induction rest arbitrary: res) (simp_all add: rules_conflict_eq bind_Inr add_issue_def)

lemma map_nth_upt_drop:
  "map (\<lambda>j. h (xs ! j)) [k..<length xs] = map h (drop k xs)"
proof -
  have "drop k xs = drop k (map (\<lambda>j. xs ! j) [0..<length xs])" by (simp add: map_nth)
  also have "\<dots> = map (\<lambda>j. xs ! j) [k..<length xs]" by (simp add: drop_map)
  finally show ?thesis by (simp add: comp_def)
qed

lemma conflict_outer_eq:
  "conflict_outer ipn rules res =
     Inr (res\<lparr>issues := issues res @
        concat (map (\<lambda>i. concat (map (\<lambda>r2. if conflict_condition ipn (rules ! i) r2
                                          then [conflicting_issue (rules ! i) r2] else [])
                                   (drop (Suc i) rules)))
                    [0..<length rules])\<rparr>)"
proof (induction rules arbitrary: res)
  case Nil
  then show ?case by simp
next
  case (Cons r rest)
  have u: "[0..<length (r # rest)] = 0 # map Suc [0..<length rest]"
    by (simp add: upt_conv_Cons map_Suc_upt del: upt_Suc)
  show ?case
    by (simp only: u)
       (simp add: conflict_inner_eq bind_Inr Cons.IH comp_def del: upt_Suc cong del: if_weak_cong)
qed

text \<open>
  C3, as the code has it. The conflict check never raises, and the issues it adds are, in
  order of the pairs of positions \<open>i < j\<close> of the chain, one conflicting issue with
  evidence (rule \<open>i\<close>, rule \<open>j\<close>) for exactly those pairs whose targets differ, are both
  terminal (accept, drop, reject), and whose matching fields are each absent on a side or
  equal as text on both sides, or, for the source and destination address only,
  overlapping networks. The severity is high if either target is drop and medium
  otherwise. Ports, protocols and interfaces are compared as text: overlapping port
  ranges written differently do not make a conflict.
\<close>

theorem C3_conflicts_flagged:
  "check_conflicting_rules ipn rules result =
     Inr (result\<lparr>issues := issues result @
        concat (map (\<lambda>i. concat (map (\<lambda>j. if conflict_condition ipn (rules ! i) (rules ! j)
                                          then [conflicting_issue (rules ! i) (rules ! j)] else [])
                                   [Suc i..<length rules]))
                    [0..<length rules])\<rparr>)
   \<and> issue_type (conflicting_issue rule1 rule2) = CONFLICTING
   \<and> affected_rules (conflicting_issue rule1 rule2) = [rule1, rule2]
   \<and> severity (conflicting_issue rule1 rule2)
       = (if target rule1 = ''DROP'' \<or> target rule2 = ''DROP'' then HIGH else MEDIUM)"
proof -
  have "\<And>i. map (\<lambda>j. if conflict_condition ipn (rules ! i) (rules ! j)
                       then [conflicting_issue (rules ! i) (rules ! j)] else [])
                [Suc i..<length rules]
        = map (\<lambda>r2. if conflict_condition ipn (rules ! i) r2
                       then [conflicting_issue (rules ! i) r2] else []) (drop (Suc i) rules)"
    by (rule map_nth_upt_drop)
  then show ?thesis
    by (simp add: check_conflicting_rules_def conflict_outer_eq issue_fields)
qed

lemmas port_rule_defs = accept_tcp_rule_def drop_tcp_port_rule_def new_FirewallRule_def post_init_def

lemma port_bounds_range: "port_bounds int_reader ''80:90'' = Inr (80, 90)"
  by (simp add: port_bounds_def py_int_def int_reader_def numeral_value_def digit_of_def bind_result_def)

lemma port_bounds_85: "port_bounds int_reader ''85'' = Inr (85, 85)"
  by (simp add: port_bounds_def py_int_def int_reader_def numeral_value_def digit_of_def bind_result_def)

text \<open>The theorem at a chain of an accept rule followed by the drop-all rule.\<close>

theorem C3_witness:
  "check_conflicting_rules ipv4_reader [accept_tcp_rule ''22'' 1, drop_all_rule 2] new_AnalysisResult
     = Inr (new_AnalysisResult\<lparr>issues := [conflicting_issue (accept_tcp_rule ''22'' 1) (drop_all_rule 2)]\<rparr>)
   \<and> severity (conflicting_issue (accept_tcp_rule ''22'' 1) (drop_all_rule 2)) = HIGH"
proof -
  have c: "conflict_condition ipv4_reader (accept_tcp_rule ''22'' 1) (drop_all_rule 2)"
    by (simp add: conflict_condition_def text_compatible_def address_compatible_def
        terminal_targets_def scenario_rule_defs)
  have u: "[0..<length [accept_tcp_rule ''22'' 1, drop_all_rule 2]] = [0, 1]"
    "[Suc 0..<length [accept_tcp_rule ''22'' 1, drop_all_rule 2]] = [1]"
    "[Suc 1..<length [accept_tcp_rule ''22'' 1, drop_all_rule 2]] = []"
    by (simp_all add: upt_rec)
  have d: "target (drop_all_rule 2) = ''DROP''" by (simp add: scenario_rule_defs)
  from C3_conflicts_flagged[of ipv4_reader "[accept_tcp_rule ''22'' 1, drop_all_rule 2]" new_AnalysisResult
      "accept_tcp_rule ''22'' 1" "drop_all_rule 2"]
  show ?thesis
    by (simp only: u) (simp add: c d new_AnalysisResult_def)
qed

text \<open>
  The claim as stated fails for \<^verbatim>\<open>--dport 80:90\<close> accepted and \<^verbatim>\<open>--dport 85\<close>
  dropped: the targets differ and are terminal, the protocols are equal and the port
  ranges overlap, yet no conflict is flagged.
\<close>

theorem C3_counterexample:
  "spec_conflict ipv4_reader int_reader (accept_tcp_rule ''80:90'' 1) (drop_tcp_port_rule ''85'' 2)
   \<and> check_conflicting_rules ipv4_reader
        [accept_tcp_rule ''80:90'' 1, drop_tcp_port_rule ''85'' 2] new_AnalysisResult
      = Inr new_AnalysisResult"
proof -
  have "spec_conflict ipv4_reader int_reader (accept_tcp_rule ''80:90'' 1) (drop_tcp_port_rule ''85'' 2)"
    by (simp add: spec_conflict_def spec_field_ok_def spec_ports_overlap_def port_bounds_range
        port_bounds_85 terminal_targets_def port_rule_defs)
  moreover have "rules_conflict ipv4_reader (accept_tcp_rule ''80:90'' 1) (drop_tcp_port_rule ''85'' 2)
     = Inr False"
    by (simp add: rules_conflict_def rules_match_same_traffic_def match_criteria_def
        criterion_overlaps_def bind_result_def port_rule_defs)
  ultimately show ?thesis
    by (simp add: check_conflicting_rules_def bind_result_def)
qed

section \<open>Specifications that fail to parse\<close>

lemma py_int_error: "py_int toi s = Inl e \<Longrightarrow> e = ValueError"
  by (auto simp: py_int_def split: option.splits)

lemma port_bounds_error: "port_bounds toi p = Inl e \<Longrightarrow> e = ValueError"
  by (auto simp: port_bounds_def bind_result_def dest: py_int_error
      split: if_splits list.splits sum.splits)

text \<open>
  C6. The address-overlap test never raises, and it answers true when either
  specification fails to parse. When either of two address specifications fails to
  parse, the address-containment test answers whether the two texts are equal; when
  either of two port specifications fails to parse, so does the port-containment test.
\<close>

theorem C6_parse_failure_fallbacks:
  "(\<exists>r. ip_ranges_overlap ipn ip1 ip2 = Inr r)
   \<and> (ipn ip1 = None \<or> ipn ip2 = None \<longrightarrow> ip_ranges_overlap ipn ip1 ip2 = Inr True)
   \<and> (ipn g = None \<or> ipn s = None \<longrightarrow> ip_contains ipn (Some g) (Some s) = Inr (g = s))
   \<and> (port_bounds toi p = Inl ValueError \<or> port_bounds toi q = Inl ValueError \<longrightarrow>
        port_contains toi (Some p) (Some q) = Inr (p = q))"
proof (intro conjI impI)
  show "\<exists>r. ip_ranges_overlap ipn ip1 ip2 = Inr r" by (rule ip_ranges_overlap_total)
  show "ipn ip1 = None \<or> ipn ip2 = None \<Longrightarrow> ip_ranges_overlap ipn ip1 ip2 = Inr True"
    by (rule ip_ranges_overlap_unparsable)
  show "ipn g = None \<or> ipn s = None \<Longrightarrow> ip_contains ipn (Some g) (Some s) = Inr (g = s)"
    by (cases "ipn g"; cases "ipn s")
       (auto simp: ip_contains_def ip_network_def bind_result_def except_ValueError_def)
  show "port_bounds toi p = Inl ValueError \<or> port_bounds toi q = Inl ValueError \<Longrightarrow>
        port_contains toi (Some p) (Some q) = Inr (p = q)"
    by (cases "port_bounds toi p"; cases "port_bounds toi q")
       (auto simp: port_contains_def bind_result_def except_ValueError_def
          dest!: port_bounds_error)
qed

theorem C6_witness:
  "ipv4_reader ''not-an-ip'' = None
   \<and> ip_ranges_overlap ipv4_reader ''not-an-ip'' ''10.0.0.0/8'' = Inr True
   \<and> ip_contains ipv4_reader (Some ''lan'') (Some ''lan'') = Inr True
   \<and> ip_contains ipv4_reader (Some ''10.0.0.0/8'') (Some ''lan'') = Inr False
   \<and> port_bounds int_reader ''http'' = Inl ValueError
   \<and> port_contains int_reader (Some ''http'') (Some ''http'') = Inr True
   \<and> port_contains int_reader (Some ''80'') (Some ''http'') = Inr False"
proof -
  have a: "ipv4_reader ''not-an-ip'' = None" "ipv4_reader ''lan'' = None"
    by (simp_all add: ipv4_reader_def ipv4_address_def octet_value_def numeral_value_def digit_of_def)
  have b: "port_bounds int_reader ''http'' = Inl ValueError"
    by (simp add: port_bounds_def py_int_def int_reader_def numeral_value_def digit_of_def bind_result_def)
  from a b
    C6_parse_failure_fallbacks[of ipv4_reader "''not-an-ip''" "''10.0.0.0/8''" "''lan''" "''lan''" int_reader "''http''" "''http''"]
    C6_parse_failure_fallbacks[of ipv4_reader "''not-an-ip''" "''10.0.0.0/8''" "''10.0.0.0/8''" "''lan''" int_reader "''80''" "''http''"]
  show ?thesis by simp
qed

section \<open>Default-drop recommendations\<close>

lemma default_policy_chains_eq:
  "recommendations (default_policy_chains t chs names plan) =
     recommendations plan @ concat (map (chain_recommendations t chs) names)"
  by (induction names arbitrary: plan)
     (auto simp: chain_recommendations_def lacks_default_drop_def add_recommendation_def Let_def
        split: option.splits)

lemma default_policy_tables_eq:
  "recommendations (default_policy_tables tbls plan) =
     recommendations plan @
     concat (map (\<lambda>(t, chs). if t = ''filter''
                    then concat (map (chain_recommendations t chs) [''INPUT'', ''FORWARD'', ''OUTPUT''])
                    else []) tbls)"
  by (induction tbls arbitrary: plan)
     (auto simp: default_policy_chains_eq simp del: default_policy_chains.simps)

lemma only_filter_table:
  "distinct (map fst tbls) \<Longrightarrow> map_of tbls ''filter'' = Some chs \<Longrightarrow>
   concat (map (\<lambda>(t, c). if t = ''filter'' then g t c else []) tbls) = g ''filter'' chs"
proof (induction tbls)
  case Nil
  then show ?case by simp
next
  case (Cons p tbls)
  obtain t c where p: "p = (t, c)" by (cases p)
  show ?case
  proof (cases "t = ''filter''")
    case True
    with Cons.prems p have "''filter'' \<notin> fst ` set tbls" "c = chs" by auto
    then have "concat (map (\<lambda>(t, c). if t = ''filter'' then g t c else []) tbls) = []"
      by (auto simp: image_iff)
    with True p \<open>c = chs\<close> show ?thesis by simp
  next
    case False
    with Cons p show ?thesis by simp
  qed
qed

lemma new_rules_default: "map chain (new_rules (default_drop_recommendation t c)) = [c]"
  by (simp add: default_drop_recommendation_def new_FirewallRule_def post_init_def)

text \<open>
  Where the test of \<^verbatim>\<open>_check_default_policies\<close> fires: for each of the three standard
  chains (INPUT, FORWARD, OUTPUT) of the filter table, if the chain has rules and its
  last rule has a target other than drop, or names a protocol, a source address or a
  destination address, then exactly one add-rule recommendation for that chain is
  produced; it proposes the rule \<^verbatim>\<open>-A <chain> -j DROP\<close> and has priority medium.
\<close>

lemma default_drop_recommended:
  assumes "distinct (map fst (tables config))"
    and "map_of (tables config) ''filter'' = Some chs"
    and "chain_name \<in> set [''INPUT'', ''FORWARD'', ''OUTPUT'']"
    and "map_of chs chain_name = Some rules"
    and "rules \<noteq> []"
    and "target (last rules) \<noteq> ''DROP'' \<or> truthy (protocol (last rules)) \<or>
         truthy (source_ip (last rules)) \<or> truthy (destination_ip (last rules))"
  shows "\<exists>added. recommendations (check_default_policies config plan) = recommendations plan @ added \<and>
           filter (\<lambda>r. rec_type r = ADD_RULE \<and> map chain (new_rules r) = [chain_name]) added
             = [default_drop_recommendation ''filter'' chain_name] \<and>
           priority (default_drop_recommendation ''filter'' chain_name) = PRIORITY_MEDIUM \<and>
           map raw_rule (new_rules (default_drop_recommendation ''filter'' chain_name))
             = [''-A '' @ chain_name @ '' -j DROP''] \<and>
           map target (new_rules (default_drop_recommendation ''filter'' chain_name)) = [''DROP'']"
proof -
  let ?added = "concat (map (chain_recommendations ''filter'' chs) [''INPUT'', ''FORWARD'', ''OUTPUT''])"
  have eq: "recommendations (check_default_policies config plan) = recommendations plan @ ?added"
    using only_filter_table[OF assms(1,2),
        of "\<lambda>t c. concat (map (chain_recommendations t c) [''INPUT'', ''FORWARD'', ''OUTPUT''])"]
    by (simp add: check_default_policies_def default_policy_tables_eq)
  have here: "chain_recommendations ''filter'' chs chain_name = [default_drop_recommendation ''filter'' chain_name]"
    using assms(4,5,6) by (simp add: chain_recommendations_def lacks_default_drop_def)
  have other: "\<And>c. c \<noteq> chain_name \<Longrightarrow>
      filter (\<lambda>r. rec_type r = ADD_RULE \<and> map chain (new_rules r) = [chain_name])
        (chain_recommendations ''filter'' chs c) = []"
    by (auto simp: chain_recommendations_def new_rules_default split: option.splits)
  have this_one: "filter (\<lambda>r. rec_type r = ADD_RULE \<and> map chain (new_rules r) = [chain_name])
        (chain_recommendations ''filter'' chs chain_name) = [default_drop_recommendation ''filter'' chain_name]"
    by (simp add: here new_rules_default) (simp add: default_drop_recommendation_def)
  have "filter (\<lambda>r. rec_type r = ADD_RULE \<and> map chain (new_rules r) = [chain_name]) ?added
          = [default_drop_recommendation ''filter'' chain_name]"
    using assms(3) this_one other by (auto simp del: filter.simps)
  with eq show ?thesis
    by (auto simp: default_drop_recommendation_def new_FirewallRule_def post_init_def)
qed

text \<open>
  So an INPUT chain that ends in \<^verbatim>\<open>-A INPUT -p tcp --dport 443 -j ACCEPT\<close> gets the
  recommendation.
\<close>

lemma default_drop_recommended_after_accept:
  "\<exists>added. recommendations (check_default_policies
       (config_of_input_chain [accept_tcp_rule ''22'' 1, accept_tcp_rule ''443'' 2]) new_OptimizationPlan)
         = recommendations new_OptimizationPlan @ added \<and>
     filter (\<lambda>r. rec_type r = ADD_RULE \<and> map chain (new_rules r) = [''INPUT'']) added
       = [default_drop_recommendation ''filter'' ''INPUT''] \<and>
     priority (default_drop_recommendation ''filter'' ''INPUT'') = PRIORITY_MEDIUM \<and>
     map raw_rule (new_rules (default_drop_recommendation ''filter'' ''INPUT''))
       = [''-A '' @ ''INPUT'' @ '' -j DROP''] \<and>
     map target (new_rules (default_drop_recommendation ''filter'' ''INPUT'')) = [''DROP'']"
  by (rule default_drop_recommended
        [where chs = "[(''INPUT'', [accept_tcp_rule ''22'' 1, accept_tcp_rule ''443'' 2])]"
           and rules = "[accept_tcp_rule ''22'' 1, accept_tcp_rule ''443'' 2]"])
     (simp_all add: config_of_input_chain_def scenario_rule_defs)

text \<open>
  C9. Each standard chain of the filter table whose last rule is not an unconditional drop
  is to get exactly one add-rule recommendation \<^verbatim>\<open>-A <chain> -j DROP\<close>. The code misses
  a case: its test looks at the target, the protocol and the two addresses of the last
  rule only. For an INPUT chain whose last rule is \<^verbatim>\<open>-A INPUT -i eth0 -j DROP\<close>, a
  drop for one interface, the last rule is not an unconditional drop, the analyzer's own
  cover test says it does not cover the unrestricted rule \<^verbatim>\<open>-A INPUT -j DROP\<close>, and
  yet no recommendation is produced.
\<close>

theorem C9_interface_drop_gets_no_recommendation:
  "\<not> spec_unconditional_drop (last [drop_eth0_rule])
   \<and> rule_covers_completely ipv4_reader int_reader drop_eth0_rule (drop_all_rule 2) = Inr False
   \<and> recommendations
        (check_default_policies (config_of_input_chain [drop_eth0_rule]) new_OptimizationPlan) = []"
  by (simp add: spec_unconditional_drop_def check_default_policies_def config_of_input_chain_def
      new_OptimizationPlan_def truthy_def drop_eth0_rule_def drop_all_rule_def new_FirewallRule_def
      post_init_def cover_defs)

section \<open>The plan applier\<close>

lemma get_list_Some: "get_list h a = Some rs \<longleftrightarrow> a < length h \<and> h ! a = ListObj rs"
  by (auto simp: get_list_def split: pyobj.splits)

lemma get_dict_Some: "get_dict h a = Some d \<longleftrightarrow> a < length h \<and> h ! a = DictObj d"
  by (auto simp: get_dict_def split: pyobj.splits)

lemma frame_refl: "frame W h h"
  by (simp add: frame_def)

lemma frame_trans: "frame W h h1 \<Longrightarrow> frame W' h1 h2 \<Longrightarrow> frame (W \<union> W') h h2"
  by (auto simp: frame_def)

lemma frame_mono: "frame W h h' \<Longrightarrow> W \<subseteq> W' \<Longrightarrow> frame W' h h'"
  by (auto simp: frame_def)

lemma frame_append: "frame {} h (h @ t)"
  by (simp add: frame_def nth_append)

lemma frame_update: "frame {a} h (h[a := ob])"
  by (simp add: frame_def)

lemma frame_get_list: "frame W h h' \<Longrightarrow> a \<notin> W \<Longrightarrow> get_list h a = Some rs \<Longrightarrow> get_list h' a = Some rs"
  by (auto simp: frame_def get_list_Some)

lemma frame_get_dict: "frame W h h' \<Longrightarrow> a \<notin> W \<Longrightarrow> get_dict h a = Some d \<Longrightarrow> get_dict h' a = Some d"
  by (auto simp: frame_def get_dict_Some)

lemma read_chains_keys: "read_chains h chs = Some cv \<Longrightarrow> map fst cv = map fst chs"
  by (induction chs arbitrary: cv) (auto split: option.splits)

lemma read_tables_keys: "read_tables h tbls = Some v \<Longrightarrow> map fst v = map fst tbls"
  by (induction tbls arbitrary: v) (auto split: option.splits)

lemma read_chains_stable:
  "read_chains h chs = Some cv \<Longrightarrow> frame W h h' \<Longrightarrow> snd ` set chs \<inter> W = {} \<Longrightarrow>
   read_chains h' chs = Some cv"
proof (induction chs arbitrary: cv)
  case Nil
  then show ?case by simp
next
  case (Cons p chs)
  obtain c a where p: "p = (c, a)" by (cases p)
  from Cons.prems(1) p obtain rs cv' where
    h: "get_list h a = Some rs" "read_chains h chs = Some cv'" "cv = (c, rs) # cv'"
    by (auto split: option.splits)
  from Cons.prems(3) p have "a \<notin> W" "snd ` set chs \<inter> W = {}" by auto
  with Cons.IH[OF h(2) Cons.prems(2)] frame_get_list[OF Cons.prems(2) _ h(1)] h(3) p
  show ?case by simp
qed

lemma table_addrs_Cons:
  "table_addrs h ((t, d) # rest) =
     d # (case get_dict h d of None \<Rightarrow> [] | Some chs \<Rightarrow> map snd chs) @ table_addrs h rest"
  by (simp add: table_addrs_def)

lemma table_addrs_Nil: "table_addrs h [] = []"
  by (simp add: table_addrs_def)

lemma read_tables_stable:
  "read_tables h tbls = Some v \<Longrightarrow> frame W h h' \<Longrightarrow> set (table_addrs h tbls) \<inter> W = {} \<Longrightarrow>
   read_tables h' tbls = Some v \<and> table_addrs h' tbls = table_addrs h tbls"
proof (induction tbls arbitrary: v)
  case Nil
  then show ?case by (simp add: table_addrs_Nil)
next
  case (Cons p tbls)
  obtain t d where p: "p = (t, d)" by (cases p)
  from Cons.prems(1) p obtain chs cv v' where
    h: "get_dict h d = Some chs" "read_chains h chs = Some cv" "read_tables h tbls = Some v'"
       "v = (t, cv) # v'"
    by (auto split: option.splits)
  from Cons.prems(3) p h(1) have d: "d \<notin> W" "snd ` set chs \<inter> W = {}"
    "set (table_addrs h tbls) \<inter> W = {}"
    by (auto simp: table_addrs_Cons)
  from frame_get_dict[OF Cons.prems(2) d(1) h(1)] have gd: "get_dict h' d = Some chs" .
  from read_chains_stable[OF h(2) Cons.prems(2) d(2)] have rc: "read_chains h' chs = Some cv" .
  from Cons.IH[OF h(3) Cons.prems(2) d(3)] gd rc h(1,4) p show ?case
    by (simp add: table_addrs_Cons)
qed

lemma copy_lists_ok:
  "read_chains h chs = Some cv \<Longrightarrow>
   \<exists>chs' t. copy_lists h chs = Some (chs', h @ t) \<and> read_chains (h @ t) chs' = Some cv \<and>
      map snd chs' = [length h..<length h + length t] \<and> length t = length chs \<and>
      (\<forall>b. length h \<le> b \<longrightarrow> b < length h + length t \<longrightarrow> get_dict (h @ t) b = None)"
proof (induction chs arbitrary: h cv)
  case Nil
  then show ?case by (auto intro: exI[of _ "[]"])
next
  case (Cons p chs)
  obtain c a where p: "p = (c, a)" by (cases p)
  from Cons.prems p obtain rs cv' where
    h: "get_list h a = Some rs" "read_chains h chs = Some cv'" "cv = (c, rs) # cv'"
    by (auto split: option.splits)
  let ?h1 = "h @ [ListObj rs]"
  have "read_chains ?h1 chs = Some cv'"
    using read_chains_stable[OF h(2) frame_append[of h "[ListObj rs]"]] by simp
  from Cons.IH[OF this] obtain chs' t where
    ih: "copy_lists ?h1 chs = Some (chs', ?h1 @ t)" "read_chains (?h1 @ t) chs' = Some cv'"
        "map snd chs' = [length ?h1..<length ?h1 + length t]" "length t = length chs"
        "\<forall>b. length ?h1 \<le> b \<longrightarrow> b < length ?h1 + length t \<longrightarrow> get_dict (?h1 @ t) b = None"
    by blast
  have gl: "get_list (h @ ListObj rs # t) (length h) = Some rs"
    by (simp add: get_list_Some nth_append)
  have gd: "get_dict (h @ ListObj rs # t) (length h) = None"
    by (simp add: get_dict_def nth_append)
  have "copy_lists h (p # chs) = Some ((c, length h) # chs', h @ (ListObj rs # t))"
    using p h(1) ih(1) by (simp add: alloc_def)
  moreover have "read_chains (h @ (ListObj rs # t)) ((c, length h) # chs') = Some cv"
    using ih(2) gl h(3) by simp
  moreover have "map snd ((c, length h) # chs') = [length h..<length h + length (ListObj rs # t)]"
  proof -
    have "[length h..<length h + length (ListObj rs # t)]
            = length h # [length ?h1..<length ?h1 + length t]"
      by (simp add: upt_conv_Cons del: upt_Suc)
    with ih(3) show ?thesis by simp
  qed
  moreover have "length (ListObj rs # t) = length (p # chs)" using ih(4) by simp
  moreover have "\<forall>b. length h \<le> b \<longrightarrow> b < length h + length (ListObj rs # t) \<longrightarrow>
      get_dict (h @ (ListObj rs # t)) b = None"
  proof (intro allI impI)
    fix b assume b: "length h \<le> b" "b < length h + length (ListObj rs # t)"
    show "get_dict (h @ (ListObj rs # t)) b = None"
    proof (cases "b = length h")
      case True
      then show ?thesis using gd by simp
    next
      case False
      with b ih(5) show ?thesis by simp
    qed
  qed
  ultimately show ?case by blast
qed

lemma copy_dicts_ok:
  "read_tables h tbls = Some v \<Longrightarrow>
   \<exists>tbls' t. copy_dicts h tbls = Some (tbls', h @ t) \<and> read_tables (h @ t) tbls' = Some v \<and>
      distinct (table_addrs (h @ t) tbls') \<and>
      set (table_addrs (h @ t) tbls') \<subseteq> {length h..<length h + length t}"
proof (induction tbls arbitrary: h v)
  case Nil
  then show ?case by (auto simp: table_addrs_Nil intro: exI[of _ "[]"])
next
  case (Cons p tbls)
  obtain tn d where p: "p = (tn, d)" by (cases p)
  from Cons.prems p obtain chs cv v' where
    h: "get_dict h d = Some chs" "read_chains h chs = Some cv" "read_tables h tbls = Some v'"
       "v = (tn, cv) # v'"
    by (auto split: option.splits)
  from copy_lists_ok[OF h(2)] obtain chs' t1 where
    c: "copy_lists h chs = Some (chs', h @ t1)" "read_chains (h @ t1) chs' = Some cv"
       "map snd chs' = [length h..<length h + length t1]"
    by blast
  let ?d' = "length h + length t1"
  let ?h2 = "h @ t1 @ [DictObj chs']"
  have "read_tables ?h2 tbls = Some v'"
    using read_tables_stable[OF h(3) frame_append[of h "t1 @ [DictObj chs']"]] by simp
  from Cons.IH[OF this] obtain tbls'' t3 where
    ih: "copy_dicts ?h2 tbls = Some (tbls'', ?h2 @ t3)" "read_tables (?h2 @ t3) tbls'' = Some v'"
        "distinct (table_addrs (?h2 @ t3) tbls'')"
        "set (table_addrs (?h2 @ t3) tbls'') \<subseteq> {length ?h2..<length ?h2 + length t3}"
    by blast
  let ?t = "t1 @ [DictObj chs'] @ t3"
  have H: "?h2 @ t3 = h @ ?t" by simp
  have gd: "get_dict (h @ ?t) ?d' = Some chs'"
    by (simp add: get_dict_Some nth_append)
  have "frame {} (h @ t1) ((h @ t1) @ ([DictObj chs'] @ t3))" by (rule frame_append)
  then have fr: "frame {} (h @ t1) (h @ ?t)" by simp
  have rc: "read_chains (h @ ?t) chs' = Some cv"
    using read_chains_stable[OF c(2) fr] by simp
  have "copy_dicts h (p # tbls) = Some ((tn, ?d') # tbls'', h @ ?t)"
    using p h(1) c(1) ih(1) by (simp add: alloc_def)
  moreover have "read_tables (h @ ?t) ((tn, ?d') # tbls'') = Some v"
    using gd rc ih(2) h(4) by (simp only: H) simp
  moreover have "distinct (table_addrs (h @ ?t) ((tn, ?d') # tbls''))"
    using gd c(3) ih(3,4) by (simp only: H) (auto simp: table_addrs_Cons)
  moreover have "set (table_addrs (h @ ?t) ((tn, ?d') # tbls'')) \<subseteq> {length h..<length h + length ?t}"
    using gd c(3) ih(4) by (simp only: H) (auto simp: table_addrs_Cons)
  ultimately show ?case by blast
qed

lemma deepcopy_ok:
  assumes "read_config h c = Some v"
  shows "\<exists>c' h'. deepcopy h c = Some (c', h') \<and> frame {} h h' \<and> read_config h' c' = Some v \<and>
           unshared h' c' \<and> set (config_addrs h' c') \<subseteq> {length h..<length h'}"
proof -
  from assms obtain tbls where t: "get_dict h c = Some tbls" "read_tables h tbls = Some v"
    by (auto simp: read_config_def split: option.splits)
  from copy_dicts_ok[OF t(2)] obtain tbls' t1 where
    c: "copy_dicts h tbls = Some (tbls', h @ t1)" "read_tables (h @ t1) tbls' = Some v"
       "distinct (table_addrs (h @ t1) tbls')"
       "set (table_addrs (h @ t1) tbls') \<subseteq> {length h..<length h + length t1}"
    by blast
  let ?c' = "length h + length t1"
  let ?h' = "h @ t1 @ [DictObj tbls']"
  have fr: "frame {} (h @ t1) ?h'" using frame_append[of "h @ t1" "[DictObj tbls']"] by simp
  from read_tables_stable[OF c(2) fr] have
    rt: "read_tables ?h' tbls' = Some v" "table_addrs ?h' tbls' = table_addrs (h @ t1) tbls'"
    by simp_all
  have gd: "get_dict ?h' ?c' = Some tbls'" by (simp add: get_dict_Some nth_append)
  have "deepcopy h c = Some (?c', ?h')" using t(1) c(1) by (simp add: deepcopy_def alloc_def)
  moreover have "frame {} h ?h'" by (rule frame_append)
  moreover have "read_config ?h' ?c' = Some v" using gd rt(1) by (simp add: read_config_def)
  moreover have "unshared ?h' ?c'" using gd rt(2) c(3,4) by (auto simp: unshared_def config_addrs_def)
  moreover have "set (config_addrs ?h' ?c') \<subseteq> {length h..<length ?h'}"
    using gd rt(2) c(4) by (auto simp: config_addrs_def)
  ultimately show ?thesis by blast
qed

lemma remove_chains_keys: "map fst (remove_from_chains r cv) = map fst cv"
  by (induction cv) auto

lemma delete_in_chains_ok:
  "read_chains h chs = Some cv \<Longrightarrow> distinct (map snd chs) \<Longrightarrow>
   \<exists>h'. delete_in_chains r chs h = Some h' \<and> read_chains h' chs = Some (remove_from_chains r cv) \<and>
      length h' = length h \<and> frame (snd ` set chs) h h' \<and> (\<forall>b. get_dict h' b = get_dict h b)"
proof (induction chs arbitrary: cv)
  case Nil
  then show ?case by (simp add: frame_refl)
next
  case (Cons p chs)
  obtain c a where p: "p = (c, a)" by (cases p)
  from Cons.prems(1) p obtain rs cv' where
    h: "get_list h a = Some rs" "read_chains h chs = Some cv'" "cv = (c, rs) # cv'"
    by (auto split: option.splits)
  from Cons.prems(2) p have d: "a \<notin> snd ` set chs" "distinct (map snd chs)" by auto
  show ?case
  proof (cases "r \<in> set rs")
    case True
    let ?h' = "h[a := ListObj (remove1 r rs)]"
    have a: "a < length h" "h ! a = ListObj rs" using h(1) by (simp_all add: get_list_Some)
    have "read_chains ?h' chs = Some cv'"
      using read_chains_stable[OF h(2) frame_update[of a h]] d(1) by simp
    moreover have "get_list ?h' a = Some (remove1 r rs)" using a by (simp add: get_list_Some)
    moreover have "\<forall>b. get_dict ?h' b = get_dict h b"
      using a by (auto simp: get_dict_def nth_list_update)
    moreover have "frame (snd ` set (p # chs)) h ?h'"
      using frame_mono[OF frame_update[of a h]] p by simp
    ultimately show ?thesis using True p h(1,3) by simp
  next
    case False
    from Cons.IH[OF h(2) d(2)] obtain h' where
      ih: "delete_in_chains r chs h = Some h'" "read_chains h' chs = Some (remove_from_chains r cv')"
          "length h' = length h" "frame (snd ` set chs) h h'" "\<forall>b. get_dict h' b = get_dict h b"
      by blast
    have "get_list h' a = Some rs" using frame_get_list[OF ih(4) d(1) h(1)] .
    moreover have "frame (snd ` set (p # chs)) h h'" using frame_mono[OF ih(4)] by auto
    ultimately show ?thesis using False p h(1,3) ih by simp
  qed
qed

lemma table_addrs_same_dicts:
  "\<forall>b. get_dict h' b = get_dict h b \<Longrightarrow> table_addrs h' tbls = table_addrs h tbls"
  by (simp add: table_addrs_def)

lemma delete_in_tables_ok:
  "read_tables h tbls = Some v \<Longrightarrow> distinct (table_addrs h tbls) \<Longrightarrow>
   \<exists>h'. delete_in_tables r tbls h = Some h' \<and> read_tables h' tbls = Some (remove_rule r v) \<and>
      length h' = length h \<and> frame (set (table_addrs h tbls)) h h' \<and>
      (\<forall>b. get_dict h' b = get_dict h b)"
proof (induction tbls arbitrary: h v)
  case Nil
  then show ?case by (simp add: frame_refl remove_rule_def)
next
  case (Cons p tbls)
  obtain tn d where p: "p = (tn, d)" by (cases p)
  from Cons.prems(1) p obtain chs cv v' where
    h: "get_dict h d = Some chs" "read_chains h chs = Some cv" "read_tables h tbls = Some v'"
       "v = (tn, cv) # v'"
    by (auto split: option.splits)
  from Cons.prems(2) p h(1) have d: "distinct (map snd chs)" "distinct (table_addrs h tbls)"
    "d \<notin> snd ` set chs" "d \<notin> set (table_addrs h tbls)"
    "snd ` set chs \<inter> set (table_addrs h tbls) = {}"
    by (auto simp: table_addrs_Cons)
  from delete_in_chains_ok[OF h(2) d(1), of r] obtain h1 where
    s1: "delete_in_chains r chs h = Some h1" "read_chains h1 chs = Some (remove_from_chains r cv)"
        "length h1 = length h" "frame (snd ` set chs) h h1" "\<forall>b. get_dict h1 b = get_dict h b"
    by blast
  have ta1: "table_addrs h1 tbls = table_addrs h tbls" using table_addrs_same_dicts[OF s1(5)] .
  have "read_tables h1 tbls = Some v'"
    using read_tables_stable[OF h(3) s1(4)] d(5) by auto
  from Cons.IH[OF this] d(2) ta1 obtain h' where
    ih: "delete_in_tables r tbls h1 = Some h'" "read_tables h' tbls = Some (remove_rule r v')"
        "length h' = length h1" "frame (set (table_addrs h tbls)) h1 h'"
        "\<forall>b. get_dict h' b = get_dict h1 b"
    by auto
  have gd: "get_dict h' d = Some chs" using ih(5) s1(5) h(1) by simp
  have "read_chains h' chs = Some (remove_from_chains r cv)"
    using read_chains_stable[OF s1(2) ih(4)] d(5) by auto
  moreover have "frame (set (table_addrs h (p # tbls))) h h'"
  proof (rule frame_mono[OF frame_trans[OF s1(4) ih(4)]])
    show "snd ` set chs \<union> set (table_addrs h tbls) \<subseteq> set (table_addrs h (p # tbls))"
      using p h(1) by (auto simp: table_addrs_Cons)
  qed
  ultimately show ?case
    using p h(1,4) s1(1,3,5) ih(1,2,3,5) gd by (simp add: remove_rule_def)
qed

lemma config_addrs_same_dicts:
  "\<forall>b. get_dict h' b = get_dict h b \<Longrightarrow> config_addrs h' c = config_addrs h c"
  by (cases "get_dict h c") (simp_all add: config_addrs_def table_addrs_same_dicts)

lemma delete_rule_ok:
  assumes "read_config h c = Some v" "unshared h c"
  shows "\<exists>h'. delete_rule r c h = Some h' \<and> read_config h' c = Some (remove_rule r v) \<and>
           length h' = length h \<and> frame (set (config_addrs h c)) h h' \<and> unshared h' c \<and>
           config_addrs h' c = config_addrs h c"
proof -
  from assms(1) obtain tbls where t: "get_dict h c = Some tbls" "read_tables h tbls = Some v"
    by (auto simp: read_config_def split: option.splits)
  from assms(2) t(1) have "distinct (table_addrs h tbls)" by (simp add: unshared_def config_addrs_def)
  from delete_in_tables_ok[OF t(2) this, of r] obtain h' where
    d: "delete_in_tables r tbls h = Some h'" "read_tables h' tbls = Some (remove_rule r v)"
       "length h' = length h" "frame (set (table_addrs h tbls)) h h'"
       "\<forall>b. get_dict h' b = get_dict h b"
    by blast
  have ca: "config_addrs h' c = config_addrs h c" using config_addrs_same_dicts[OF d(5)] .
  have "frame (set (config_addrs h c)) h h'"
    using frame_mono[OF d(4)] t(1) by (auto simp: config_addrs_def)
  with d t(1) ca assms(2) show ?thesis
    by (simp add: delete_rule_def read_config_def unshared_def)
qed

lemma delete_rules_ok:
  "read_config h c = Some v \<Longrightarrow> unshared h c \<Longrightarrow>
   \<exists>h'. delete_rules rs c h = Some h' \<and> read_config h' c = Some (fold remove_rule rs v) \<and>
      length h' = length h \<and> frame (set (config_addrs h c)) h h' \<and> unshared h' c \<and>
      config_addrs h' c = config_addrs h c"
proof (induction rs arbitrary: h v)
  case Nil
  then show ?case by (simp add: frame_refl)
next
  case (Cons r rs)
  from delete_rule_ok[OF Cons.prems, of r] obtain h1 where
    s: "delete_rule r c h = Some h1" "read_config h1 c = Some (remove_rule r v)"
       "length h1 = length h" "frame (set (config_addrs h c)) h h1" "unshared h1 c"
       "config_addrs h1 c = config_addrs h c"
    by blast
  from Cons.IH[OF s(2,5)] obtain h' where
    ih: "delete_rules rs c h1 = Some h'" "read_config h' c = Some (fold remove_rule rs (remove_rule r v))"
        "length h' = length h1" "frame (set (config_addrs h1 c)) h1 h'" "unshared h' c"
        "config_addrs h' c = config_addrs h1 c"
    by blast
  have "frame (set (config_addrs h c)) h h'"
    using frame_trans[OF s(4) ih(4)] s(6) by simp
  with s ih show ?case by simp
qed

lemma remove_from_chains_subset:
  "set (concat (map snd (remove_from_chains r cv))) \<subseteq> set (concat (map snd cv))"
proof (induction cv)
  case Nil
  then show ?case by simp
next
  case (Cons p cv)
  obtain c rs where p: "p = (c, rs)" by (cases p)
  have "set (remove1 r rs) \<subseteq> set rs" by (rule set_remove1_subset)
  with Cons.IH p show ?case by (cases "r \<in> set rs") auto
qed

lemma remove_from_chains_distinct:
  "distinct (concat (map snd cv)) \<Longrightarrow>
   distinct (concat (map snd (remove_from_chains r cv))) \<and>
   r \<notin> set (concat (map snd (remove_from_chains r cv)))"
proof (induction cv)
  case Nil
  then show ?case by simp
next
  case (Cons p cv)
  obtain c rs where p: "p = (c, rs)" by (cases p)
  show ?case
  proof (cases "r \<in> set rs")
    case True
    with Cons.prems p have "r \<notin> set (remove1 r rs)" "r \<notin> set (concat (map snd cv))"
      "distinct (remove1 r rs)" "set (remove1 r rs) \<inter> set (concat (map snd cv)) = {}"
      by (auto dest: notin_set_remove1)
    with True p Cons.prems show ?thesis by auto
  next
    case False
    from Cons.prems p have d: "distinct (concat (map snd cv))" by simp
    from Cons.IH[OF d] remove_from_chains_subset[of r cv] False p Cons.prems
    show ?thesis by auto
  qed
qed

lemma remove_rule_absent: "no_equal_rules v \<Longrightarrow> no_equal_rules (remove_rule r v) \<and> rule_absent r (remove_rule r v)"
proof -
  assume a: "no_equal_rules v"
  have "\<And>tn cv. (tn, cv) \<in> set v \<Longrightarrow>
      distinct (concat (map snd (remove_from_chains r cv))) \<and>
      r \<notin> set (concat (map snd (remove_from_chains r cv)))"
    using a remove_from_chains_distinct by (fastforce simp: no_equal_rules_def)
  then show ?thesis
    by (auto simp: no_equal_rules_def rule_absent_def remove_rule_def)
qed

lemma remove_rule_keeps_absent: "rule_absent x v \<Longrightarrow> rule_absent x (remove_rule r v)"
  using remove_from_chains_subset by (fastforce simp: rule_absent_def remove_rule_def)

lemma fold_remove_keeps_absent: "rule_absent x v \<Longrightarrow> rule_absent x (fold remove_rule rs v)"
  by (induction rs arbitrary: v) (auto simp: remove_rule_keeps_absent)

lemma fold_remove_no_equal: "no_equal_rules v \<Longrightarrow> no_equal_rules (fold remove_rule rs v)"
  by (induction rs arbitrary: v) (auto simp: remove_rule_absent)

lemma fold_remove_absent:
  "no_equal_rules v \<Longrightarrow> x \<in> set rs \<Longrightarrow> rule_absent x (fold remove_rule rs v)"
proof (induction rs arbitrary: v)
  case Nil
  then show ?case by simp
next
  case (Cons r rs)
  show ?case
  proof (cases "x = r")
    case True
    with Cons.prems(1) have "rule_absent x (remove_rule r v)" by (simp add: remove_rule_absent)
    then show ?thesis by (simp add: fold_remove_keeps_absent)
  next
    case False
    with Cons.prems(2) have "x \<in> set rs" by simp
    with Cons.IH[of "remove_rule r v"] Cons.prems(1) show ?thesis by (simp add: remove_rule_absent)
  qed
qed

lemma delete_only_value:
  "\<forall>r\<in>set recs. rec_type r = DELETE_RULE \<Longrightarrow>
   fold apply_rec_value recs v = fold remove_rule (concat (map rec_affected_rules recs)) v"
  by (induction recs arbitrary: v) (simp_all add: apply_rec_value_def)

lemma delete_in_chains_absent:
  "read_chains h chs = Some cv \<Longrightarrow> r \<notin> set (concat (map snd cv)) \<Longrightarrow>
   delete_in_chains r chs h = Some h"
proof (induction chs arbitrary: cv)
  case Nil
  then show ?case by simp
next
  case (Cons p chs)
  obtain c a where p: "p = (c, a)" by (cases p)
  from Cons.prems(1) p obtain rs cv' where
    h: "get_list h a = Some rs" "read_chains h chs = Some cv'" "cv = (c, rs) # cv'"
    by (auto split: option.splits)
  with Cons.prems(2) have "r \<notin> set rs" "r \<notin> set (concat (map snd cv'))" by auto
  with Cons.IH[OF h(2)] h(1) p show ?case by simp
qed

lemma delete_in_tables_absent:
  "read_tables h tbls = Some v \<Longrightarrow> rule_absent r v \<Longrightarrow> delete_in_tables r tbls h = Some h"
proof (induction tbls arbitrary: v)
  case Nil
  then show ?case by simp
next
  case (Cons p tbls)
  obtain tn d where p: "p = (tn, d)" by (cases p)
  from Cons.prems(1) p obtain chs cv v' where
    h: "get_dict h d = Some chs" "read_chains h chs = Some cv" "read_tables h tbls = Some v'"
       "v = (tn, cv) # v'"
    by (auto split: option.splits)
  with Cons.prems(2) have a: "r \<notin> set (concat (map snd cv))" "rule_absent r v'"
    by (auto simp: rule_absent_def)
  from delete_in_chains_absent[OF h(2) a(1)] Cons.IH[OF h(3) a(2)] h(1) p show ?case by simp
qed

lemma delete_rule_absent:
  "read_config h c = Some v \<Longrightarrow> rule_absent r v \<Longrightarrow> delete_rule r c h = Some h"
  by (auto simp: read_config_def delete_rule_def delete_in_tables_absent split: option.splits)

lemma delete_rules_absent:
  "read_config h c = Some v \<Longrightarrow> \<forall>r\<in>set rs. rule_absent r v \<Longrightarrow> delete_rules rs c h = Some h"
  by (induction rs) (auto simp: delete_rule_absent)

lemma apply_deletes_ok:
  "\<forall>r\<in>set recs. rec_type r = DELETE_RULE \<Longrightarrow> read_config h c = Some v \<Longrightarrow> unshared h c \<Longrightarrow>
   \<exists>h'. apply_recs recs c h = Some h' \<and>
      read_config h' c = Some (fold remove_rule (concat (map rec_affected_rules recs)) v)"
proof (induction recs arbitrary: h v)
  case Nil
  then show ?case by simp
next
  case (Cons r recs)
  from delete_rules_ok[OF Cons.prems(2,3), of "rec_affected_rules r"] obtain h1 where
    s: "delete_rules (rec_affected_rules r) c h = Some h1"
       "read_config h1 c = Some (fold remove_rule (rec_affected_rules r) v)" "unshared h1 c"
    by blast
  from Cons.prems(1) have "\<forall>x\<in>set recs. rec_type x = DELETE_RULE" "rec_type r = DELETE_RULE" by simp_all
  with Cons.IH[OF _ s(2,3)] s(1) show ?case
    by (simp add: apply_delete_recommendation_def)
qed

lemma apply_deletes_absent:
  "\<forall>r\<in>set recs. rec_type r = DELETE_RULE \<Longrightarrow> read_config h c = Some v \<Longrightarrow>
   \<forall>x\<in>set (concat (map rec_affected_rules recs)). rule_absent x v \<Longrightarrow>
   apply_recs recs c h = Some h"
proof (induction recs)
  case Nil
  then show ?case by simp
next
  case (Cons r recs)
  from Cons.prems have "delete_rules (rec_affected_rules r) c h = Some h"
    by (intro delete_rules_absent[of h c v]) auto
  with Cons show ?case by (simp add: apply_delete_recommendation_def)
qed

lemma sorted_delete_only:
  "\<forall>r\<in>set (sorted_recs (delete_only plan)). rec_type r = DELETE_RULE"
  by (simp add: sorted_recs_def delete_only_def)

lemma delete_recommendation_fields:
  "rec_type (delete_recommendation r) = DELETE_RULE"
  "rec_affected_rules (delete_recommendation r) = [r]"
  by (simp_all add: delete_recommendation_def)

lemma sorted_single: "sorted_recs (delete_only (plan_of [delete_recommendation r])) = [delete_recommendation r]"
  by (simp add: sorted_recs_def delete_only_def plan_of_def new_OptimizationPlan_def delete_recommendation_def)

text \<open>
  C7, as the code has it. For every policy no table of which holds two equal rules, and
  every plan: applying the delete-rule recommendations of the plan returns a copy whose
  value is the policy without the named rules, and applying them a second time to that
  copy returns without an error and leaves every object of the store as it is. (The
  policy is one whose dictionaries and lists are all different objects.)
\<close>

theorem C7_delete_twice_same:
  assumes "read_config h original_config = Some v"
    and "unshared h original_config"
    and "no_equal_rules v"
  shows "\<exists>optimized_config h1.
           generate_optimized_config h original_config (delete_only plan) = Some (optimized_config, h1) \<and>
           read_config h1 optimized_config = Some (applied_value (delete_only plan) v) \<and>
           apply_recs (sorted_recs (delete_only plan)) optimized_config h1 = Some h1"
proof -
  let ?recs = "sorted_recs (delete_only plan)"
  let ?rs = "concat (map rec_affected_rules ?recs)"
  from deepcopy_ok[OF assms(1)] obtain c h0 where
    d: "deepcopy h original_config = Some (c, h0)" "read_config h0 c = Some v" "unshared h0 c"
    by blast
  from apply_deletes_ok[OF sorted_delete_only d(2,3)] obtain h1 where
    a: "apply_recs ?recs c h0 = Some h1" "read_config h1 c = Some (fold remove_rule ?rs v)"
    by blast
  have val: "applied_value (delete_only plan) v = fold remove_rule ?rs v"
    by (simp add: applied_value_def delete_only_value[OF sorted_delete_only])
  have "\<forall>x\<in>set ?rs. rule_absent x (fold remove_rule ?rs v)"
    using fold_remove_absent[OF assms(3)] by blast
  from apply_deletes_absent[OF sorted_delete_only a(2) this]
  have "apply_recs ?recs c h1 = Some h1" .
  with d(1) a val show ?thesis by (simp add: generate_optimized_config_def)
qed

text \<open>The theorem at the policy of the first scenario and the plan that deletes its duplicate.\<close>

theorem C7_witness:
  "\<exists>optimized_config h1.
     generate_optimized_config three_rule_store 0
       (delete_only (plan_of [delete_recommendation (accept_tcp_rule ''22'' 2)]))
       = Some (optimized_config, h1) \<and>
     read_config h1 optimized_config
       = Some (applied_value (delete_only (plan_of [delete_recommendation (accept_tcp_rule ''22'' 2)]))
           [(''filter'', [(''INPUT'', [accept_tcp_rule ''22'' 1, accept_tcp_rule ''22'' 2, drop_all_rule 3])])]) \<and>
     apply_recs (sorted_recs (delete_only (plan_of [delete_recommendation (accept_tcp_rule ''22'' 2)])))
       optimized_config h1 = Some h1"
proof (rule C7_delete_twice_same)
  show "read_config three_rule_store 0 =
      Some [(''filter'', [(''INPUT'', [accept_tcp_rule ''22'' 1, accept_tcp_rule ''22'' 2, drop_all_rule 3])])]"
    by (simp add: read_config_def three_rule_store_def get_dict_def get_list_def)
  show "unshared three_rule_store 0"
    by (simp add: unshared_def config_addrs_def table_addrs_def three_rule_store_def get_dict_def)
  show "no_equal_rules
      [(''filter'', [(''INPUT'', [accept_tcp_rule ''22'' 1, accept_tcp_rule ''22'' 2, drop_all_rule 3])])]"
    by (simp add: no_equal_rules_def scenario_rule_defs)
qed

text \<open>
  The claim as stated fails for a chain that holds the same rule twice: the first
  application of the plan that deletes this rule removes one occurrence, the second
  application removes the other.
\<close>

theorem C7_counterexample:
  "(case generate_optimized_config duplicate_drop_store 0
           (delete_only (plan_of [delete_recommendation (drop_all_rule 1)])) of
      None \<Rightarrow> False
    | Some (optimized_config, h1) \<Rightarrow>
        read_config h1 optimized_config = Some [(''filter'', [(''INPUT'', [drop_all_rule 1])])] \<and>
        (case apply_recs (sorted_recs (delete_only (plan_of [delete_recommendation (drop_all_rule 1)])))
                optimized_config h1 of
           None \<Rightarrow> False
         | Some h2 \<Rightarrow> read_config h2 optimized_config = Some [(''filter'', [(''INPUT'', [])])]))"
  by (simp add: generate_optimized_config_def sorted_single deepcopy_def duplicate_drop_store_def
      get_dict_def get_list_def alloc_def apply_delete_recommendation_def delete_rule_def
      read_config_def delete_recommendation_fields nth_append)

section \<open>The applier works on a copy\<close>

subsection \<open>Adding a rule in the store and on the value\<close>

lemma read_tables_addrs_valid:
  "read_tables h tbls = Some v \<Longrightarrow> \<forall>b\<in>set (table_addrs h tbls). b < length h"
proof (induction tbls arbitrary: v)
  case Nil
  then show ?case by (simp add: table_addrs_Nil)
next
  case (Cons p tbls)
  obtain t d where p: "p = (t, d)" by (cases p)
  from Cons.prems p obtain chs cv v' where
    h: "get_dict h d = Some chs" "read_chains h chs = Some cv" "read_tables h tbls = Some v'"
    by (auto split: option.splits)
  have "\<forall>b\<in>snd ` set chs. b < length h" using h(2)
  proof (induction chs arbitrary: cv)
    case Nil
    then show ?case by simp
  next
    case (Cons q chs)
    then show ?case by (cases q) (auto simp: get_list_Some split: option.splits)
  qed
  moreover have "d < length h" using h(1) by (simp add: get_dict_Some)
  moreover have "table_addrs h (p # tbls) = d # map snd chs @ table_addrs h tbls"
    using p h(1) by (simp add: table_addrs_Cons)
  ultimately show ?case using Cons.IH[OF h(3)] by auto
qed

lemma table_addrs_append: "table_addrs h (xs @ ys) = table_addrs h xs @ table_addrs h ys"
  by (simp add: table_addrs_def)

lemma read_tables_append:
  "read_tables h xs = Some a \<Longrightarrow> read_tables h ys = Some b \<Longrightarrow> read_tables h (xs @ ys) = Some (a @ b)"
  by (induction xs arbitrary: a) (auto split: option.splits)

lemma read_chains_append:
  "read_chains h xs = Some a \<Longrightarrow> read_chains h ys = Some b \<Longrightarrow> read_chains h (xs @ ys) = Some (a @ b)"
  by (induction xs arbitrary: a) (auto split: option.splits)

lemma map_of_keys_None: "map fst v = map fst tbls \<Longrightarrow> (map_of v k = None) = (map_of tbls k = None)"
  by (metis map_of_eq_None_iff set_map)

lemma read_tables_lookup:
  "read_tables h tbls = Some v \<Longrightarrow> map_of tbls t = Some d \<Longrightarrow>
   \<exists>chs cv. get_dict h d = Some chs \<and> read_chains h chs = Some cv \<and> map_of v t = Some cv \<and>
     d \<in> set (table_addrs h tbls) \<and> snd ` set chs \<subseteq> set (table_addrs h tbls)"
proof (induction tbls arbitrary: v)
  case Nil
  then show ?case by simp
next
  case (Cons p tbls)
  obtain k d0 where p: "p = (k, d0)" by (cases p)
  from Cons.prems(1) p obtain chs0 cv0 v' where
    h: "get_dict h d0 = Some chs0" "read_chains h chs0 = Some cv0" "read_tables h tbls = Some v'"
       "v = (k, cv0) # v'"
    by (auto split: option.splits)
  show ?case
  proof (cases "k = t")
    case True
    with Cons.prems(2) p have "d0 = d" by simp
    with True h p show ?thesis by (auto simp: table_addrs_Cons)
  next
    case False
    with Cons.prems(2) p have "map_of tbls t = Some d" by simp
    from Cons.IH[OF h(3) this] obtain chs cv where
      ih: "get_dict h d = Some chs" "read_chains h chs = Some cv" "map_of v' t = Some cv"
          "d \<in> set (table_addrs h tbls)" "snd ` set chs \<subseteq> set (table_addrs h tbls)"
      by blast
    have "set (table_addrs h tbls) \<subseteq> set (table_addrs h (p # tbls))"
      using p by (auto simp: table_addrs_Cons)
    with ih False h(4) show ?thesis by auto
  qed
qed

lemma read_chains_lookup:
  "read_chains h chs = Some cv \<Longrightarrow> map_of chs c = Some a \<Longrightarrow>
   \<exists>rules. get_list h a = Some rules \<and> map_of cv c = Some rules \<and> a \<in> snd ` set chs"
proof (induction chs arbitrary: cv)
  case Nil
  then show ?case by simp
next
  case (Cons p chs)
  obtain k a0 where p: "p = (k, a0)" by (cases p)
  from Cons.prems(1) p obtain rs cv' where
    h: "get_list h a0 = Some rs" "read_chains h chs = Some cv'" "cv = (k, rs) # cv'"
    by (auto split: option.splits)
  show ?case
  proof (cases "k = c")
    case True
    with Cons.prems(2) p h show ?thesis by auto
  next
    case False
    with Cons.prems(2) p have "map_of chs c = Some a" by simp
    from Cons.IH[OF h(2) this] False h(3) p show ?thesis by auto
  qed
qed

lemma on_first_const: "map_of v k = Some x \<Longrightarrow> on_first k (\<lambda>_. f x) v = on_first k f v"
  by (induction v) (auto split: if_splits)

lemma on_first_id: "map_of v k = Some x \<Longrightarrow> f x = x \<Longrightarrow> on_first k f v = v"
  by (induction v) (auto split: if_splits)

lemma read_chains_update:
  "read_chains h chs = Some cv \<Longrightarrow> distinct (map snd chs) \<Longrightarrow> map_of chs c = Some a \<Longrightarrow>
   read_chains (h[a := ListObj xs]) chs = Some (on_first c (\<lambda>_. xs) cv)"
proof (induction chs arbitrary: cv)
  case Nil
  then show ?case by simp
next
  case (Cons p chs)
  obtain k a0 where p: "p = (k, a0)" by (cases p)
  from Cons.prems(1) p obtain rs cv' where
    h: "get_list h a0 = Some rs" "read_chains h chs = Some cv'" "cv = (k, rs) # cv'"
    by (auto split: option.splits)
  from Cons.prems(2) p have d: "a0 \<notin> snd ` set chs" "distinct (map snd chs)" by auto
  show ?case
  proof (cases "k = c")
    case True
    with Cons.prems(3) p have "a0 = a" by simp
    have "read_chains (h[a := ListObj xs]) chs = Some cv'"
      using read_chains_stable[OF h(2) frame_update[of a h]] d(1) \<open>a0 = a\<close> by simp
    moreover have "get_list (h[a := ListObj xs]) a = Some xs"
      using h(1) \<open>a0 = a\<close> by (simp add: get_list_Some)
    ultimately show ?thesis using True p h(3) \<open>a0 = a\<close> by simp
  next
    case False
    with Cons.prems(3) p have m: "map_of chs c = Some a" by simp
    then have "a \<in> snd ` set chs" by (metis image_eqI map_of_SomeD snd_conv)
    with d(1) have "a \<noteq> a0" by auto
    then have "get_list (h[a := ListObj xs]) a0 = Some rs"
      using h(1) by (simp add: get_list_Some)
    with Cons.IH[OF h(2) d(2) m] False p h(3) show ?thesis by simp
  qed
qed

lemma read_tables_update:
  "read_tables h tbls = Some v \<Longrightarrow> distinct (table_addrs h tbls) \<Longrightarrow> map_of tbls t = Some d \<Longrightarrow>
   get_dict h d = Some chs \<Longrightarrow> frame W h h' \<Longrightarrow> W \<subseteq> insert d (snd ` set chs) \<Longrightarrow>
   get_dict h' d = Some chs' \<Longrightarrow> read_chains h' chs' = Some cv' \<Longrightarrow>
   read_tables h' tbls = Some (on_first t (\<lambda>_. cv') v) \<and>
   set (table_addrs h' tbls) \<subseteq> set (table_addrs h tbls) \<union> snd ` set chs' \<and>
   (distinct (map snd chs') \<longrightarrow> d \<notin> snd ` set chs' \<longrightarrow>
    (snd ` set chs' - snd ` set chs) \<inter> set (table_addrs h tbls) = {} \<longrightarrow>
    distinct (table_addrs h' tbls))"
proof (induction tbls arbitrary: v)
  case Nil
  then show ?case by simp
next
  case (Cons p tbls)
  obtain k d0 where p: "p = (k, d0)" by (cases p)
  from Cons.prems(1) p obtain chs0 cv0 v' where
    h: "get_dict h d0 = Some chs0" "read_chains h chs0 = Some cv0" "read_tables h tbls = Some v'"
       "v = (k, cv0) # v'"
    by (auto split: option.splits)
  have ta: "table_addrs h (p # tbls) = d0 # map snd chs0 @ table_addrs h tbls"
    using p h(1) by (simp add: table_addrs_Cons)
  from Cons.prems(2) ta have dd: "d0 \<notin> snd ` set chs0" "d0 \<notin> set (table_addrs h tbls)"
    "distinct (map snd chs0)" "snd ` set chs0 \<inter> set (table_addrs h tbls) = {}"
    "distinct (table_addrs h tbls)"
    by auto
  show ?case
  proof (cases "k = t")
    case True
    with Cons.prems(3) p have e: "d0 = d" by simp
    with h(1) Cons.prems(4) have c: "chs0 = chs" by simp
    have "set (table_addrs h tbls) \<inter> W = {}" using Cons.prems(6) dd(2,4) e c by auto
    from read_tables_stable[OF h(3) Cons.prems(5) this] have
      st: "read_tables h' tbls = Some v'" "table_addrs h' tbls = table_addrs h tbls" by simp_all
    have ta': "table_addrs h' (p # tbls) = d # map snd chs' @ table_addrs h tbls"
      using p e Cons.prems(7) st(2) by (simp add: table_addrs_Cons)
    have "read_tables h' (p # tbls) = Some (on_first t (\<lambda>_. cv') v)"
      using p e True Cons.prems(7,8) st(1) h(4) by simp
    moreover have "set (table_addrs h' (p # tbls)) \<subseteq> set (table_addrs h (p # tbls)) \<union> snd ` set chs'"
      using ta ta' e by auto
    moreover have "distinct (map snd chs') \<longrightarrow> d \<notin> snd ` set chs' \<longrightarrow>
        (snd ` set chs' - snd ` set chs) \<inter> set (table_addrs h (p # tbls)) = {} \<longrightarrow>
        distinct (table_addrs h' (p # tbls))"
    proof (intro impI)
      assume a: "distinct (map snd chs')" "d \<notin> snd ` set chs'"
        "(snd ` set chs' - snd ` set chs) \<inter> set (table_addrs h (p # tbls)) = {}"
      have "\<And>x. x \<in> snd ` set chs' \<Longrightarrow> x \<notin> set (table_addrs h tbls)"
      proof
        fix x assume x: "x \<in> snd ` set chs'" "x \<in> set (table_addrs h tbls)"
        from x(2) dd(4) c have "x \<notin> snd ` set chs" by auto
        moreover from x(2) ta have "x \<in> set (table_addrs h (p # tbls))" by simp
        ultimately show False using a(3) x(1) by blast
      qed
      then have "snd ` set chs' \<inter> set (table_addrs h tbls) = {}" by blast
      with a(1,2) dd(2,5) e ta' show "distinct (table_addrs h' (p # tbls))" by auto
    qed
    ultimately show ?thesis by blast
  next
    case False
    with Cons.prems(3) p have m: "map_of tbls t = Some d" by simp
    from read_tables_lookup[OF h(3) m] Cons.prems(4) have
      inr: "d \<in> set (table_addrs h tbls)" "snd ` set chs \<subseteq> set (table_addrs h tbls)"
      by auto
    with Cons.prems(6) have W: "W \<subseteq> set (table_addrs h tbls)" by auto
    with dd have "d0 \<notin> W" "snd ` set chs0 \<inter> W = {}" by auto
    from frame_get_dict[OF Cons.prems(5) this(1) h(1)] read_chains_stable[OF h(2) Cons.prems(5) this(2)]
    have hd: "get_dict h' d0 = Some chs0" "read_chains h' chs0 = Some cv0" .
    from Cons.IH[OF h(3) dd(5) m Cons.prems(4,5,6,7,8)] have
      ih: "read_tables h' tbls = Some (on_first t (\<lambda>_. cv') v')"
          "set (table_addrs h' tbls) \<subseteq> set (table_addrs h tbls) \<union> snd ` set chs'"
          "distinct (map snd chs') \<longrightarrow> d \<notin> snd ` set chs' \<longrightarrow>
             (snd ` set chs' - snd ` set chs) \<inter> set (table_addrs h tbls) = {} \<longrightarrow>
             distinct (table_addrs h' tbls)"
      by blast+
    have ta': "table_addrs h' (p # tbls) = d0 # map snd chs0 @ table_addrs h' tbls"
      using p hd(1) by (simp add: table_addrs_Cons)
    have "read_tables h' (p # tbls) = Some (on_first t (\<lambda>_. cv') v)"
      using p False hd ih(1) h(4) by simp
    moreover have "set (table_addrs h' (p # tbls)) \<subseteq> set (table_addrs h (p # tbls)) \<union> snd ` set chs'"
      using ta ta' ih(2) by auto
    moreover have "distinct (map snd chs') \<longrightarrow> d \<notin> snd ` set chs' \<longrightarrow>
        (snd ` set chs' - snd ` set chs) \<inter> set (table_addrs h (p # tbls)) = {} \<longrightarrow>
        distinct (table_addrs h' (p # tbls))"
    proof (intro impI)
      assume a: "distinct (map snd chs')" "d \<notin> snd ` set chs'"
        "(snd ` set chs' - snd ` set chs) \<inter> set (table_addrs h (p # tbls)) = {}"
      then have "(snd ` set chs' - snd ` set chs) \<inter> set (table_addrs h tbls) = {}"
        using ta by auto
      with ih(3) a have d1: "distinct (table_addrs h' tbls)" by blast
      have "\<And>x. x \<in> insert d0 (snd ` set chs0) \<Longrightarrow> x \<notin> set (table_addrs h' tbls)"
      proof
        fix x assume x: "x \<in> insert d0 (snd ` set chs0)" "x \<in> set (table_addrs h' tbls)"
        from x(1) dd(2,4) have nx: "x \<notin> set (table_addrs h tbls)" by auto
        with x(2) ih(2) have "x \<in> snd ` set chs'" by auto
        moreover from nx inr(2) have "x \<notin> snd ` set chs" by auto
        moreover from x(1) ta have "x \<in> set (table_addrs h (p # tbls))" by auto
        ultimately show False using a(3) by auto
      qed
      with d1 dd(1,3) ta' show "distinct (table_addrs h' (p # tbls))" by auto
    qed
    ultimately show ?thesis by blast
  qed
qed

lemma config_addrs_valid:
  "read_config h c = Some v \<Longrightarrow> \<forall>b\<in>set (config_addrs h c). b < length h"
proof -
  assume a: "read_config h c = Some v"
  then obtain tbls where t: "get_dict h c = Some tbls" "read_tables h tbls = Some v"
    by (auto simp: read_config_def split: option.splits)
  from t(1) have "c < length h" by (simp add: get_dict_Some)
  moreover have "config_addrs h c = c # table_addrs h tbls" using t(1) by (simp add: config_addrs_def)
  ultimately show ?thesis using read_tables_addrs_valid[OF t(2)] by simp
qed

lemma ensure_table_ok:
  assumes "read_config h c = Some v" "unshared h c"
  shows "\<exists>h'. ensure_table t c h = Some h' \<and> read_config h' c = Some (ensure_table_value t v) \<and>
           unshared h' c \<and> frame (set (config_addrs h c)) h h' \<and>
           set (config_addrs h' c) \<subseteq> set (config_addrs h c) \<union> {length h..<length h'}"
proof -
  from assms(1) obtain tbls where t: "get_dict h c = Some tbls" "read_tables h tbls = Some v"
    by (auto simp: read_config_def split: option.splits)
  have ca: "config_addrs h c = c # table_addrs h tbls" using t(1) by (simp add: config_addrs_def)
  have keys: "(map_of v t = None) = (map_of tbls t = None)"
    using map_of_keys_None[OF read_tables_keys[OF t(2)]] .
  show ?thesis
  proof (cases "map_of tbls t = None")
    case False
    then obtain d where d: "map_of tbls t = Some d" by auto
    then have "ensure_table t c h = Some h" using t(1) by (simp add: ensure_table_def)
    moreover have "map_of v t \<noteq> None" using keys d by simp
    then have "ensure_table_value t v = v" by (auto simp: ensure_table_value_def)
    ultimately show ?thesis using assms by (simp add: frame_refl)
  next
    case True
    let ?d = "length h"
    let ?h' = "(h @ [DictObj []])[c := DictObj (tbls @ [(t, ?d)])]"
    have c: "c < length h" using t(1) by (simp add: get_dict_Some)
    from assms(2) ca have nc: "c \<notin> set (table_addrs h tbls)" "distinct (table_addrs h tbls)"
      by (simp_all add: unshared_def)
    have valid: "\<forall>b\<in>set (table_addrs h tbls). b < length h" using read_tables_addrs_valid[OF t(2)] .
    have fr: "frame {c} h ?h'"
      using frame_trans[OF frame_append[of h "[DictObj []]"] frame_update[of c "h @ [DictObj []]"]]
      by simp
    from read_tables_stable[OF t(2) fr] nc(1) have
      st: "read_tables ?h' tbls = Some v" "table_addrs ?h' tbls = table_addrs h tbls" by simp_all
    have gc: "get_dict ?h' c = Some (tbls @ [(t, ?d)])" using c by (simp add: get_dict_Some)
    have gd: "get_dict ?h' ?d = Some []" using c by (simp add: get_dict_Some nth_append)
    have "read_tables ?h' [(t, ?d)] = Some [(t, [])]" using gd by simp
    from read_tables_append[OF st(1) this] have rt: "read_tables ?h' (tbls @ [(t, ?d)]) = Some (v @ [(t, [])])" .
    have ta: "table_addrs ?h' (tbls @ [(t, ?d)]) = table_addrs h tbls @ [?d]"
      using st(2) gd by (simp add: table_addrs_append table_addrs_Cons table_addrs_Nil)
    have ca': "config_addrs ?h' c = c # table_addrs h tbls @ [?d]"
      using gc ta by (simp add: config_addrs_def)
    have "ensure_table t c h = Some ?h'" using t(1) True by (simp add: ensure_table_def alloc_def)
    moreover have "read_config ?h' c = Some (ensure_table_value t v)"
      using gc rt keys True by (simp add: read_config_def ensure_table_value_def)
    moreover have "unshared ?h' c" using ca' nc valid c by (auto simp: unshared_def)
    moreover have "frame (set (config_addrs h c)) h ?h'" using frame_mono[OF fr] ca by simp
    moreover have "set (config_addrs ?h' c) \<subseteq> set (config_addrs h c) \<union> {length h..<length ?h'}"
      using ca ca' by auto
    ultimately show ?thesis by blast
  qed
qed

lemma table_lookup_distinct:
  "map_of tbls t = Some d \<Longrightarrow> get_dict h d = Some chs \<Longrightarrow> distinct (table_addrs h tbls) \<Longrightarrow>
   d \<notin> snd ` set chs \<and> distinct (map snd chs)"
proof (induction tbls)
  case Nil
  then show ?case by simp
next
  case (Cons p tbls)
  obtain k d0 where p: "p = (k, d0)" by (cases p)
  show ?case
  proof (cases "k = t")
    case True
    with Cons.prems(1) p have "d0 = d" by simp
    with Cons.prems(2,3) p show ?thesis by (auto simp: table_addrs_Cons)
  next
    case False
    with Cons.prems(1) p have "map_of tbls t = Some d" by simp
    moreover from Cons.prems(3) p have "distinct (table_addrs h tbls)"
      by (auto simp: table_addrs_Cons)
    ultimately show ?thesis using Cons.IH Cons.prems(2) by blast
  qed
qed

lemma map_of_on_first:
  "map_of (on_first k f v) k' = (if k' = k then map_option f (map_of v k) else map_of v k')"
  by (induction v) auto

lemma ensure_chain_ok:
  assumes "read_config h c = Some v" "unshared h c" "map_of v t \<noteq> None"
  shows "\<exists>h'. ensure_chain t ch c h = Some h' \<and> read_config h' c = Some (ensure_chain_value t ch v) \<and>
           unshared h' c \<and> frame (set (config_addrs h c)) h h' \<and>
           set (config_addrs h' c) \<subseteq> set (config_addrs h c) \<union> {length h..<length h'}"
proof -
  from assms(1) obtain tbls where t: "get_dict h c = Some tbls" "read_tables h tbls = Some v"
    by (auto simp: read_config_def split: option.splits)
  have ca: "config_addrs h c = c # table_addrs h tbls" using t(1) by (simp add: config_addrs_def)
  from assms(2) ca have nc: "c \<notin> set (table_addrs h tbls)" "distinct (table_addrs h tbls)"
    by (simp_all add: unshared_def)
  have valid: "\<forall>b\<in>set (table_addrs h tbls). b < length h" using read_tables_addrs_valid[OF t(2)] .
  have cl: "c < length h" using t(1) by (simp add: get_dict_Some)
  from assms(3) map_of_keys_None[OF read_tables_keys[OF t(2)], of t] obtain d where
    m: "map_of tbls t = Some d" by auto
  from read_tables_lookup[OF t(2) m] obtain chs cv where
    l: "get_dict h d = Some chs" "read_chains h chs = Some cv" "map_of v t = Some cv"
       "d \<in> set (table_addrs h tbls)" "snd ` set chs \<subseteq> set (table_addrs h tbls)"
    by blast
  from table_lookup_distinct[OF m l(1) nc(2)] have dd: "d \<notin> snd ` set chs" "distinct (map snd chs)"
    by simp_all
  have keys: "(map_of cv ch = None) = (map_of chs ch = None)"
    using map_of_keys_None[OF read_chains_keys[OF l(2)]] .
  show ?thesis
  proof (cases "map_of chs ch = None")
    case False
    then obtain a where "map_of chs ch = Some a" by auto
    then have "ensure_chain t ch c h = Some h" using t(1) m l(1) by (simp add: ensure_chain_def)
    moreover have "map_of cv ch \<noteq> None" using keys False by simp
    then have "ensure_chain_value t ch v = v"
      unfolding ensure_chain_value_def by (intro on_first_id[OF l(3)]) auto
    ultimately show ?thesis using assms by (simp add: frame_refl)
  next
    case True
    let ?a = "length h"
    let ?chs' = "chs @ [(ch, ?a)]"
    let ?h' = "(h @ [ListObj []])[d := DictObj ?chs']"
    have dl: "d < length h" using l(1) by (simp add: get_dict_Some)
    have cd: "c \<noteq> d" using nc(1) l(4) by auto
    have fr: "frame {d} h ?h'"
      using frame_trans[OF frame_append[of h "[ListObj []]"] frame_update[of d "h @ [ListObj []]"]]
      by simp
    have gc: "get_dict ?h' c = Some tbls" using frame_get_dict[OF fr _ t(1)] cd by simp
    have gd: "get_dict ?h' d = Some ?chs'" using dl by (simp add: get_dict_Some)
    have "read_chains ?h' chs = Some cv" using read_chains_stable[OF l(2) fr] dd(1) by simp
    moreover have "get_list ?h' ?a = Some []" using dl by (simp add: get_list_Some nth_append)
    then have "read_chains ?h' [(ch, ?a)] = Some [(ch, [])]" by simp
    ultimately have rc: "read_chains ?h' ?chs' = Some (cv @ [(ch, [])])" by (rule read_chains_append)
    have W: "{d} \<subseteq> insert d (snd ` set chs)" by simp
    from read_tables_update[OF t(2) nc(2) m l(1) fr W gd rc] have
      u: "read_tables ?h' tbls = Some (on_first t (\<lambda>_. cv @ [(ch, [])]) v)"
         "set (table_addrs ?h' tbls) \<subseteq> set (table_addrs h tbls) \<union> snd ` set ?chs'"
         "distinct (map snd ?chs') \<longrightarrow> d \<notin> snd ` set ?chs' \<longrightarrow>
            (snd ` set ?chs' - snd ` set chs) \<inter> set (table_addrs h tbls) = {} \<longrightarrow>
            distinct (table_addrs ?h' tbls)"
      by blast+
    have an: "?a \<notin> snd ` set chs" "?a \<notin> set (table_addrs h tbls)" using valid l(5) by auto
    have "distinct (map snd ?chs')" using dd(2) an(1) by simp
    moreover have "d \<notin> snd ` set ?chs'" using dd(1) dl by auto
    moreover have "(snd ` set ?chs' - snd ` set chs) \<inter> set (table_addrs h tbls) = {}"
      using an(2) by auto
    ultimately have di: "distinct (table_addrs ?h' tbls)" using u(3) by blast
    have val: "on_first t (\<lambda>_. cv @ [(ch, [])]) v = ensure_chain_value t ch v"
      unfolding ensure_chain_value_def
      using on_first_const[OF l(3), of "\<lambda>cv. if map_of cv ch = None then cv @ [(ch, [])] else cv"]
        keys True by simp
    have ca': "config_addrs ?h' c = c # table_addrs ?h' tbls" using gc by (simp add: config_addrs_def)
    have sub: "set (table_addrs ?h' tbls) \<subseteq> set (table_addrs h tbls) \<union> {?a}"
      using u(2) l(5) by auto
    have "ensure_chain t ch c h = Some ?h'"
      using t(1) m l(1) True by (simp add: ensure_chain_def alloc_def)
    moreover have "read_config ?h' c = Some (ensure_chain_value t ch v)"
      using gc u(1) val by (simp add: read_config_def)
    moreover have "unshared ?h' c" using ca' di sub nc(1) cl by (auto simp: unshared_def)
    moreover have "frame (set (config_addrs h c)) h ?h'" using frame_mono[OF fr] ca l(4) by simp
    moreover have "set (config_addrs ?h' c) \<subseteq> set (config_addrs h c) \<union> {length h..<length ?h'}"
      using ca ca' sub by auto
    ultimately show ?thesis by blast
  qed
qed

lemma append_to_chain_ok:
  assumes "read_config h c = Some v" "unshared h c" "map_of v (table r) = Some cv"
    "map_of cv (chain r) \<noteq> None"
  shows "\<exists>h'. append_to_chain r c h = Some h' \<and> read_config h' c = Some (append_value r v) \<and>
           unshared h' c \<and> frame (set (config_addrs h c)) h h' \<and>
           set (config_addrs h' c) \<subseteq> set (config_addrs h c) \<union> {length h..<length h'}"
proof -
  from assms(1) obtain tbls where t: "get_dict h c = Some tbls" "read_tables h tbls = Some v"
    by (auto simp: read_config_def split: option.splits)
  have ca: "config_addrs h c = c # table_addrs h tbls" using t(1) by (simp add: config_addrs_def)
  from assms(2) ca have nc: "c \<notin> set (table_addrs h tbls)" "distinct (table_addrs h tbls)"
    by (simp_all add: unshared_def)
  from assms(3) map_of_keys_None[OF read_tables_keys[OF t(2)], of "table r"] obtain d where
    m: "map_of tbls (table r) = Some d" by auto
  from read_tables_lookup[OF t(2) m] assms(3) obtain chs where
    l: "get_dict h d = Some chs" "read_chains h chs = Some cv"
       "d \<in> set (table_addrs h tbls)" "snd ` set chs \<subseteq> set (table_addrs h tbls)"
    by auto
  from table_lookup_distinct[OF m l(1) nc(2)] have dd: "d \<notin> snd ` set chs" "distinct (map snd chs)"
    by simp_all
  from assms(4) map_of_keys_None[OF read_chains_keys[OF l(2)], of "chain r"] obtain a where
    ma: "map_of chs (chain r) = Some a" by auto
  from read_chains_lookup[OF l(2) ma] obtain rules where
    g: "get_list h a = Some rules" "map_of cv (chain r) = Some rules" "a \<in> snd ` set chs"
    by blast
  let ?h' = "h[a := ListObj (rules @ [r])]"
  have fr: "frame {a} h ?h'" by (rule frame_update)
  have same: "\<forall>b. get_dict ?h' b = get_dict h b"
    using g(1) by (auto simp: get_dict_def get_list_Some nth_list_update split: pyobj.splits)
  have rc: "read_chains ?h' chs = Some (on_first (chain r) (\<lambda>_. rules @ [r]) cv)"
    using read_chains_update[OF l(2) dd(2) ma] .
  have W: "{a} \<subseteq> insert d (snd ` set chs)" using g(3) by simp
  have gd: "get_dict ?h' d = Some chs" using same l(1) by simp
  from read_tables_update[OF t(2) nc(2) m l(1) fr W gd rc] have
    u: "read_tables ?h' tbls = Some (on_first (table r) (\<lambda>_. on_first (chain r) (\<lambda>_. rules @ [r]) cv) v)"
    by blast
  have "on_first (chain r) (\<lambda>_. rules @ [r]) cv = on_first (chain r) (\<lambda>rules. rules @ [r]) cv"
    using on_first_const[OF g(2), of "\<lambda>rules. rules @ [r]"] .
  then have val: "on_first (table r) (\<lambda>_. on_first (chain r) (\<lambda>_. rules @ [r]) cv) v = append_value r v"
    unfolding append_value_def
    using on_first_const[OF assms(3), of "on_first (chain r) (\<lambda>rules. rules @ [r])"] by simp
  have ca': "config_addrs ?h' c = config_addrs h c" using config_addrs_same_dicts[OF same] .
  have "append_to_chain r c h = Some ?h'"
    using t(1) m l(1) ma g(1) by (simp add: append_to_chain_def)
  moreover have "read_config ?h' c = Some (append_value r v)"
    using same t(1) u val by (simp add: read_config_def)
  moreover have "unshared ?h' c" using ca' assms(2) by (simp add: unshared_def)
  moreover have "frame (set (config_addrs h c)) h ?h'"
    using frame_mono[OF fr] ca l(4) g(3) by auto
  moreover have "set (config_addrs ?h' c) \<subseteq> set (config_addrs h c) \<union> {length h..<length ?h'}"
    using ca' by simp
  ultimately show ?thesis by blast
qed

lemma step_frame:
  "frame (set (config_addrs h c)) h h' \<Longrightarrow>
   set (config_addrs h' c) \<subseteq> set (config_addrs h c) \<union> {length h..<length h'} \<Longrightarrow>
   set (config_addrs h c) \<subseteq> {n..<length h} \<Longrightarrow>
   frame {n..} h h' \<and> set (config_addrs h' c) \<subseteq> {n..<length h'}"
proof -
  assume a: "frame (set (config_addrs h c)) h h'"
    "set (config_addrs h' c) \<subseteq> set (config_addrs h c) \<union> {length h..<length h'}"
    "set (config_addrs h c) \<subseteq> {n..<length h}"
  have "c \<in> set (config_addrs h c)" by (simp add: config_addrs_def)
  with a(3) have n: "n \<le> length h" by auto
  from a(1) have l: "length h \<le> length h'" by (simp add: frame_def)
  from a(3) have "set (config_addrs h c) \<subseteq> {n..}" by auto
  from frame_mono[OF a(1) this] have "frame {n..} h h'" .
  moreover have "set (config_addrs h' c) \<subseteq> {n..<length h'}"
  proof
    fix x assume "x \<in> set (config_addrs h' c)"
    with a(2) have "x \<in> set (config_addrs h c) \<or> x \<in> {length h..<length h'}" by auto
    with a(3) n l show "x \<in> {n..<length h'}" by auto
  qed
  ultimately show ?thesis by simp
qed

lemma frame_from_trans: "frame {n..} h h1 \<Longrightarrow> frame {n..} h1 h2 \<Longrightarrow> frame {n..} h h2"
  using frame_trans[of "{n..}" h h1 "{n..}" h2] by simp

lemma ensure_table_value_has: "map_of (ensure_table_value t v) t \<noteq> None"
  by (auto simp: ensure_table_value_def map_add_def)

lemma ensure_chain_value_has:
  "map_of v t = Some cv \<Longrightarrow>
   \<exists>cv'. map_of (ensure_chain_value t ch v) t = Some cv' \<and> map_of cv' ch \<noteq> None"
  by (auto simp: ensure_chain_value_def map_of_on_first map_add_def)

lemma add_rule_ok:
  assumes "read_config h c = Some v" "unshared h c" "set (config_addrs h c) \<subseteq> {n..<length h}"
  shows "\<exists>h'. add_rule r c h = Some h' \<and> read_config h' c = Some (append_rule r v) \<and>
           unshared h' c \<and> set (config_addrs h' c) \<subseteq> {n..<length h'} \<and> frame {n..} h h'"
proof -
  from ensure_table_ok[OF assms(1,2), of "table r"] obtain h1 where
    s1: "ensure_table (table r) c h = Some h1"
        "read_config h1 c = Some (ensure_table_value (table r) v)" "unshared h1 c"
        "frame (set (config_addrs h c)) h h1"
        "set (config_addrs h1 c) \<subseteq> set (config_addrs h c) \<union> {length h..<length h1}"
    by blast
  from step_frame[OF s1(4,5) assms(3)] have f1: "frame {n..} h h1"
    "set (config_addrs h1 c) \<subseteq> {n..<length h1}" by simp_all
  from ensure_chain_ok[OF s1(2,3) ensure_table_value_has, of "chain r"] obtain h2 where
    s2: "ensure_chain (table r) (chain r) c h1 = Some h2"
        "read_config h2 c = Some (ensure_chain_value (table r) (chain r) (ensure_table_value (table r) v))"
        "unshared h2 c" "frame (set (config_addrs h1 c)) h1 h2"
        "set (config_addrs h2 c) \<subseteq> set (config_addrs h1 c) \<union> {length h1..<length h2}"
    by blast
  from step_frame[OF s2(4,5) f1(2)] have f2: "frame {n..} h1 h2"
    "set (config_addrs h2 c) \<subseteq> {n..<length h2}" by simp_all
  obtain cv0 where "map_of (ensure_table_value (table r) v) (table r) = Some cv0"
    using ensure_table_value_has[of "table r" v] by auto
  from ensure_chain_value_has[OF this, of "chain r"] obtain cv' where
    has: "map_of (ensure_chain_value (table r) (chain r) (ensure_table_value (table r) v)) (table r) = Some cv'"
         "map_of cv' (chain r) \<noteq> None"
    by blast
  from append_to_chain_ok[OF s2(2,3) has] obtain h3 where
    s3: "append_to_chain r c h2 = Some h3" "read_config h3 c = Some (append_rule r v)"
        "unshared h3 c" "frame (set (config_addrs h2 c)) h2 h3"
        "set (config_addrs h3 c) \<subseteq> set (config_addrs h2 c) \<union> {length h2..<length h3}"
    unfolding append_rule_def by blast
  from step_frame[OF s3(4,5) f2(2)] have f3: "frame {n..} h2 h3"
    "set (config_addrs h3 c) \<subseteq> {n..<length h3}" by simp_all
  have "add_rule r c h = Some h3" using s1(1) s2(1) s3(1) by (simp add: add_rule_def)
  moreover have "frame {n..} h h3" using frame_from_trans[OF frame_from_trans[OF f1(1) f2(1)] f3(1)] .
  ultimately show ?thesis using s3(2,3) f3(2) by blast
qed

lemma add_rules_ok:
  "read_config h c = Some v \<Longrightarrow> unshared h c \<Longrightarrow> set (config_addrs h c) \<subseteq> {n..<length h} \<Longrightarrow>
   \<exists>h'. add_rules rs c h = Some h' \<and> read_config h' c = Some (fold append_rule rs v) \<and>
      unshared h' c \<and> set (config_addrs h' c) \<subseteq> {n..<length h'} \<and> frame {n..} h h'"
proof (induction rs arbitrary: h v)
  case Nil
  then show ?case by (simp add: frame_refl)
next
  case (Cons r rs)
  from add_rule_ok[OF Cons.prems, of r] obtain h1 where
    s: "add_rule r c h = Some h1" "read_config h1 c = Some (append_rule r v)" "unshared h1 c"
       "set (config_addrs h1 c) \<subseteq> {n..<length h1}" "frame {n..} h h1"
    by blast
  from Cons.IH[OF s(2,3,4)] obtain h' where
    ih: "add_rules rs c h1 = Some h'" "read_config h' c = Some (fold append_rule rs (append_rule r v))"
        "unshared h' c" "set (config_addrs h' c) \<subseteq> {n..<length h'}" "frame {n..} h1 h'"
    by blast
  from frame_from_trans[OF s(5) ih(5)] s(1) ih show ?case by simp
qed

lemma apply_recs_ok:
  "read_config h c = Some v \<Longrightarrow> unshared h c \<Longrightarrow> set (config_addrs h c) \<subseteq> {n..<length h} \<Longrightarrow>
   \<exists>h'. apply_recs recs c h = Some h' \<and> read_config h' c = Some (fold apply_rec_value recs v) \<and>
      unshared h' c \<and> set (config_addrs h' c) \<subseteq> {n..<length h'} \<and> frame {n..} h h'"
proof (induction recs arbitrary: h v)
  case Nil
  then show ?case by (simp add: frame_refl)
next
  case (Cons r recs)
  have "\<exists>h1. (if rec_type r = DELETE_RULE then apply_delete_recommendation c r h
            else if rec_type r = ADD_RULE then apply_add_recommendation c r h
            else Some h) = Some h1 \<and> read_config h1 c = Some (apply_rec_value r v) \<and>
      unshared h1 c \<and> set (config_addrs h1 c) \<subseteq> {n..<length h1} \<and> frame {n..} h h1"
  proof (cases "rec_type r = DELETE_RULE")
    case True
    from delete_rules_ok[OF Cons.prems(1,2), of "rec_affected_rules r"] obtain h1 where
      d: "delete_rules (rec_affected_rules r) c h = Some h1"
         "read_config h1 c = Some (fold remove_rule (rec_affected_rules r) v)"
         "length h1 = length h" "frame (set (config_addrs h c)) h h1" "unshared h1 c"
         "config_addrs h1 c = config_addrs h c"
      by blast
    have "set (config_addrs h1 c) \<subseteq> set (config_addrs h c) \<union> {length h..<length h1}"
      using d(6) by simp
    from step_frame[OF d(4) this Cons.prems(3)] d True show ?thesis
      by (simp add: apply_delete_recommendation_def apply_rec_value_def)
  next
    case False
    show ?thesis
    proof (cases "rec_type r = ADD_RULE")
      case True
      from add_rules_ok[OF Cons.prems, of "new_rules r"] True False show ?thesis
        by (simp add: apply_add_recommendation_def apply_rec_value_def)
    next
      case F2: False
      with False Cons.prems show ?thesis by (simp add: apply_rec_value_def frame_refl)
    qed
  qed
  then obtain h1 where
    s: "(if rec_type r = DELETE_RULE then apply_delete_recommendation c r h
            else if rec_type r = ADD_RULE then apply_add_recommendation c r h
            else Some h) = Some h1" "read_config h1 c = Some (apply_rec_value r v)"
      "unshared h1 c" "set (config_addrs h1 c) \<subseteq> {n..<length h1}" "frame {n..} h h1"
    by blast
  from Cons.IH[OF s(2,3,4)] obtain h' where
    ih: "apply_recs recs c h1 = Some h'"
        "read_config h' c = Some (fold apply_rec_value recs (apply_rec_value r v))"
        "unshared h' c" "set (config_addrs h' c) \<subseteq> {n..<length h'}" "frame {n..} h1 h'"
    by blast
  have "apply_recs (r # recs) c h = Some h'" using s(1) ih(1) by (simp del: apply_delete_recommendation_def)
  with frame_from_trans[OF s(5) ih(5)] ih show ?case by simp
qed

subsection \<open>Rules kept and rules added\<close>

lemma map_of_remove_from_chains:
  "map_of (remove_from_chains r cv) c = map_of cv c \<or>
   (\<exists>rules. map_of cv c = Some rules \<and> map_of (remove_from_chains r cv) c = Some (remove1 r rules))"
  by (induction cv) auto

lemma map_of_remove_rule:
  "map_of (remove_rule r v) t = map_option (remove_from_chains r) (map_of v t)"
  by (induction v) (auto simp: remove_rule_def)

lemma rules_of_remove_rule:
  "rules_of (remove_rule r v) t c = rules_of v t c \<or>
   rules_of (remove_rule r v) t c = remove1 r (rules_of v t c)"
proof (cases "map_of v t")
  case None
  then show ?thesis by (simp add: rules_of_def map_of_remove_rule)
next
  case (Some cv)
  with map_of_remove_from_chains[of r cv c] show ?thesis
    by (auto simp: rules_of_def map_of_remove_rule)
qed

lemma map_of_ensure_table_value:
  "map_of (ensure_table_value T v) t = (if t = T \<and> map_of v T = None then Some [] else map_of v t)"
  by (auto simp: ensure_table_value_def map_add_def split: option.splits)

lemma rules_of_ensure_table_value: "rules_of (ensure_table_value T v) t c = rules_of v t c"
  by (simp add: rules_of_def map_of_ensure_table_value)

lemma rules_of_ensure_chain_value: "rules_of (ensure_chain_value T C v) t c = rules_of v t c"
  by (auto simp: rules_of_def ensure_chain_value_def map_of_on_first map_add_def split: option.splits)

lemma rules_of_append_value:
  "map_of v (table r) = Some cv \<Longrightarrow> map_of cv (chain r) \<noteq> None \<Longrightarrow>
   rules_of (append_value r v) t c =
     (if t = table r \<and> c = chain r then rules_of v t c @ [r] else rules_of v t c)"
  by (auto simp: rules_of_def append_value_def map_of_on_first split: option.splits)

lemma rules_of_append_rule:
  "rules_of (append_rule r v) t c =
     (if t = table r \<and> c = chain r then rules_of v t c @ [r] else rules_of v t c)"
proof -
  let ?v1 = "ensure_table_value (table r) v"
  let ?v2 = "ensure_chain_value (table r) (chain r) ?v1"
  obtain cv0 where "map_of ?v1 (table r) = Some cv0"
    using ensure_table_value_has[of "table r" v] by auto
  from ensure_chain_value_has[OF this, of "chain r"] obtain cv' where
    "map_of ?v2 (table r) = Some cv'" "map_of cv' (chain r) \<noteq> None" by blast
  from rules_of_append_value[OF this] show ?thesis
    by (simp add: append_rule_def rules_of_ensure_chain_value rules_of_ensure_table_value)
qed

lemma kept_then_added_refl: "kept_then_added new v v"
  unfolding kept_then_added_def
proof (intro allI)
  fix t c
  have "rules_of v t c = rules_of v t c @ [] \<and> subseq (rules_of v t c) (rules_of v t c) \<and> set [] \<subseteq> new"
    by simp
  then show "\<exists>kept added. rules_of v t c = kept @ added \<and> subseq kept (rules_of v t c) \<and> set added \<subseteq> new"
    by blast
qed

lemma kept_added_remove1:
  assumes "xs = kept @ added" "subseq kept old" "set added \<subseteq> new"
  shows "\<exists>kept' added'. remove1 r xs = kept' @ added' \<and> subseq kept' old \<and> set added' \<subseteq> new"
proof (cases "r \<in> set kept")
  case True
  have "subseq (remove1 r kept) kept" by (induction kept) auto
  from this assms(2) have "subseq (remove1 r kept) old" by (rule subseq_order.trans)
  moreover have "remove1 r xs = remove1 r kept @ added" using True assms(1) by (simp add: remove1_append)
  ultimately show ?thesis using assms(3) by blast
next
  case False
  have "set (remove1 r added) \<subseteq> new" using assms(3) set_remove1_subset[of r added] by blast
  moreover have "remove1 r xs = kept @ remove1 r added" using False assms(1) by (simp add: remove1_append)
  ultimately show ?thesis using assms(2) by blast
qed

lemma kept_then_added_remove:
  assumes "kept_then_added new v0 v"
  shows "kept_then_added new v0 (remove_rule r v)"
  unfolding kept_then_added_def
proof (intro allI)
  fix t c
  from assms obtain kept added where
    k: "rules_of v t c = kept @ added" "subseq kept (rules_of v0 t c)" "set added \<subseteq> new"
    unfolding kept_then_added_def by blast
  from rules_of_remove_rule[of r v t c]
  show "\<exists>kept added. rules_of (remove_rule r v) t c = kept @ added \<and>
          subseq kept (rules_of v0 t c) \<and> set added \<subseteq> new"
  proof
    assume "rules_of (remove_rule r v) t c = rules_of v t c"
    with k show ?thesis by auto
  next
    assume "rules_of (remove_rule r v) t c = remove1 r (rules_of v t c)"
    with kept_added_remove1[OF k, of r] show ?thesis by simp
  qed
qed

lemma kept_then_added_append:
  assumes "kept_then_added new v0 v" "r \<in> new"
  shows "kept_then_added new v0 (append_rule r v)"
  unfolding kept_then_added_def
proof (intro allI)
  fix t c
  from assms(1) obtain kept added where
    k: "rules_of v t c = kept @ added" "subseq kept (rules_of v0 t c)" "set added \<subseteq> new"
    unfolding kept_then_added_def by blast
  show "\<exists>kept added. rules_of (append_rule r v) t c = kept @ added \<and>
          subseq kept (rules_of v0 t c) \<and> set added \<subseteq> new"
  proof (cases "t = table r \<and> c = chain r")
    case True
    then have "rules_of (append_rule r v) t c = kept @ (added @ [r])"
      using k(1) by (simp add: rules_of_append_rule)
    moreover have "set (added @ [r]) \<subseteq> new" using k(3) assms(2) by simp
    ultimately show ?thesis using k(2) by blast
  next
    case False
    then have "rules_of (append_rule r v) t c = kept @ added"
      using k(1) by (auto simp: rules_of_append_rule)
    with k show ?thesis by blast
  qed
qed

lemma kept_then_added_removes:
  "kept_then_added new v0 v \<Longrightarrow> kept_then_added new v0 (fold remove_rule rs v)"
  by (induction rs arbitrary: v) (simp_all add: kept_then_added_remove)

lemma kept_then_added_appends:
  "kept_then_added new v0 v \<Longrightarrow> set rs \<subseteq> new \<Longrightarrow> kept_then_added new v0 (fold append_rule rs v)"
  by (induction rs arbitrary: v) (simp_all add: kept_then_added_append)

lemma kept_then_added_recs:
  "kept_then_added new v0 v \<Longrightarrow>
   set (concat (map new_rules (filter (\<lambda>r. rec_type r = ADD_RULE) recs))) \<subseteq> new \<Longrightarrow>
   kept_then_added new v0 (fold apply_rec_value recs v)"
proof (induction recs arbitrary: v)
  case Nil
  then show ?case by simp
next
  case (Cons r recs)
  have "kept_then_added new v0 (apply_rec_value r v)"
  proof (cases "rec_type r = ADD_RULE")
    case True
    with Cons.prems(2) have "set (new_rules r) \<subseteq> new" by simp
    with True Cons.prems(1) show ?thesis
      by (simp add: apply_rec_value_def kept_then_added_appends)
  next
    case False
    with Cons.prems(1) show ?thesis
      by (simp add: apply_rec_value_def kept_then_added_removes)
  qed
  moreover from Cons.prems(2) have
    "set (concat (map new_rules (filter (\<lambda>r. rec_type r = ADD_RULE) recs))) \<subseteq> new"
    by (auto split: if_splits)
  ultimately show ?case using Cons.IH by simp
qed

lemma kept_then_added_plan:
  "kept_then_added
     (set (concat (map new_rules (filter (\<lambda>r. rec_type r = ADD_RULE) (recommendations plan)))))
     v (applied_value plan v)"
  unfolding applied_value_def
  by (rule kept_then_added_recs[OF kept_then_added_refl]) (auto simp: sorted_recs_def)

lemma frame_take: "frame {length h..} h h' \<Longrightarrow> take (length h) h' = h"
  by (auto simp: frame_def intro: nth_equalityI)

lemma read_config_stable:
  assumes "read_config h c = Some v" "frame {length h..} h h'"
  shows "read_config h' c = Some v"
proof -
  from assms(1) obtain tbls where t: "get_dict h c = Some tbls" "read_tables h tbls = Some v"
    by (auto simp: read_config_def split: option.splits)
  from t(1) have "c \<notin> {length h..}" by (simp add: get_dict_Some)
  from frame_get_dict[OF assms(2) this t(1)] have g: "get_dict h' c = Some tbls" .
  have "set (table_addrs h tbls) \<inter> {length h..} = {}"
    using read_tables_addrs_valid[OF t(2)] by auto
  from read_tables_stable[OF t(2) assms(2) this] g show ?thesis by (simp add: read_config_def)
qed

text \<open>
  C8. For every policy and every plan, applying the plan returns: every object that the
  store held before the call is as it was, so the original policy has the tables, chains
  and rules it had; the returned policy is made of new objects only; its value is the
  value of the original with the delete-rule and add-rule recommendations applied in
  order of priority; and in it the rules of every chain are rules of that chain of the
  original, unchanged and in their original order, followed by rules out of the new
  rules of the add-rule recommendations of the plan. (The policy is one whose dictionaries
  and lists are all different objects.)
\<close>

theorem C8_plan_applied_to_a_copy:
  assumes "read_config h original_config = Some v"
    and "unshared h original_config"
  shows "\<exists>optimized_config h'.
           generate_optimized_config h original_config plan = Some (optimized_config, h') \<and>
           take (length h) h' = h \<and>
           read_config h' original_config = Some v \<and>
           set (config_addrs h' optimized_config) \<subseteq> {length h..<length h'} \<and>
           read_config h' optimized_config = Some (applied_value plan v) \<and>
           (\<forall>table_name chain_name. \<exists>kept added.
              rules_of (applied_value plan v) table_name chain_name = kept @ added \<and>
              subseq kept (rules_of v table_name chain_name) \<and>
              set added \<subseteq> set (concat (map new_rules
                (filter (\<lambda>r. rec_type r = ADD_RULE) (recommendations plan)))))"
proof -
  from deepcopy_ok[OF assms(1)] obtain c h0 where
    d: "deepcopy h original_config = Some (c, h0)" "frame {} h h0" "read_config h0 c = Some v"
       "unshared h0 c" "set (config_addrs h0 c) \<subseteq> {length h..<length h0}"
    by blast
  from apply_recs_ok[OF d(3,4,5), of "sorted_recs plan"] obtain h2 where
    a: "apply_recs (sorted_recs plan) c h0 = Some h2"
       "read_config h2 c = Some (fold apply_rec_value (sorted_recs plan) v)"
       "unshared h2 c" "set (config_addrs h2 c) \<subseteq> {length h..<length h2}"
       "frame {length h..} h0 h2"
    by blast
  have fr: "frame {length h..} h h2" using frame_trans[OF d(2) a(5)] by simp
  have "generate_optimized_config h original_config plan = Some (c, h2)"
    using d(1) a(1) by (simp add: generate_optimized_config_def)
  moreover have "take (length h) h2 = h" using frame_take[OF fr] .
  moreover have "read_config h2 original_config = Some v" using read_config_stable[OF assms(1) fr] .
  moreover have "read_config h2 c = Some (applied_value plan v)"
    using a(2) by (simp add: applied_value_def)
  moreover have "\<forall>table_name chain_name. \<exists>kept added.
              rules_of (applied_value plan v) table_name chain_name = kept @ added \<and>
              subseq kept (rules_of v table_name chain_name) \<and>
              set added \<subseteq> set (concat (map new_rules
                (filter (\<lambda>r. rec_type r = ADD_RULE) (recommendations plan))))"
    using kept_then_added_plan[of plan v] unfolding kept_then_added_def .
  ultimately show ?thesis using a(4) by blast
qed

text \<open>
  The theorem at the policy of the first scenario and a plan that adds a rule to a chain
  the policy does not have and deletes the duplicate rule; the value of the result.
\<close>

theorem C8_witness:
  "(\<exists>optimized_config h'.
      generate_optimized_config three_rule_store 0 add_and_delete_plan = Some (optimized_config, h') \<and>
      take (length three_rule_store) h' = three_rule_store \<and>
      read_config h' 0 =
        Some [(''filter'', [(''INPUT'', [accept_tcp_rule ''22'' 1, accept_tcp_rule ''22'' 2, drop_all_rule 3])])] \<and>
      set (config_addrs h' optimized_config) \<subseteq> {length three_rule_store..<length h'} \<and>
      read_config h' optimized_config =
        Some (applied_value add_and_delete_plan
          [(''filter'', [(''INPUT'', [accept_tcp_rule ''22'' 1, accept_tcp_rule ''22'' 2, drop_all_rule 3])])]) \<and>
      (\<forall>table_name chain_name. \<exists>kept added.
         rules_of (applied_value add_and_delete_plan
           [(''filter'', [(''INPUT'', [accept_tcp_rule ''22'' 1, accept_tcp_rule ''22'' 2, drop_all_rule 3])])])
           table_name chain_name = kept @ added \<and>
         subseq kept (rules_of
           [(''filter'', [(''INPUT'', [accept_tcp_rule ''22'' 1, accept_tcp_rule ''22'' 2, drop_all_rule 3])])]
           table_name chain_name) \<and>
         set added \<subseteq> set (concat (map new_rules
           (filter (\<lambda>r. rec_type r = ADD_RULE) (recommendations add_and_delete_plan)))))) \<and>
   applied_value add_and_delete_plan
     [(''filter'', [(''INPUT'', [accept_tcp_rule ''22'' 1, accept_tcp_rule ''22'' 2, drop_all_rule 3])])]
   = [(''filter'',
       [(''INPUT'', [accept_tcp_rule ''22'' 1, drop_all_rule 3]),
        (''FORWARD'', [new_FirewallRule ''filter'' ''FORWARD'' ''DROP'' 0 ''-A FORWARD -j DROP''])])]"
proof (intro conjI)
  show "\<exists>optimized_config h'.
      generate_optimized_config three_rule_store 0 add_and_delete_plan = Some (optimized_config, h') \<and>
      take (length three_rule_store) h' = three_rule_store \<and>
      read_config h' 0 =
        Some [(''filter'', [(''INPUT'', [accept_tcp_rule ''22'' 1, accept_tcp_rule ''22'' 2, drop_all_rule 3])])] \<and>
      set (config_addrs h' optimized_config) \<subseteq> {length three_rule_store..<length h'} \<and>
      read_config h' optimized_config =
        Some (applied_value add_and_delete_plan
          [(''filter'', [(''INPUT'', [accept_tcp_rule ''22'' 1, accept_tcp_rule ''22'' 2, drop_all_rule 3])])]) \<and>
      (\<forall>table_name chain_name. \<exists>kept added.
         rules_of (applied_value add_and_delete_plan
           [(''filter'', [(''INPUT'', [accept_tcp_rule ''22'' 1, accept_tcp_rule ''22'' 2, drop_all_rule 3])])])
           table_name chain_name = kept @ added \<and>
         subseq kept (rules_of
           [(''filter'', [(''INPUT'', [accept_tcp_rule ''22'' 1, accept_tcp_rule ''22'' 2, drop_all_rule 3])])]
           table_name chain_name) \<and>
         set added \<subseteq> set (concat (map new_rules
           (filter (\<lambda>r. rec_type r = ADD_RULE) (recommendations add_and_delete_plan)))))"
  proof (rule C8_plan_applied_to_a_copy)
    show "read_config three_rule_store 0 =
        Some [(''filter'', [(''INPUT'', [accept_tcp_rule ''22'' 1, accept_tcp_rule ''22'' 2, drop_all_rule 3])])]"
      by (simp add: read_config_def three_rule_store_def get_dict_def get_list_def)
    show "unshared three_rule_store 0"
      by (simp add: unshared_def config_addrs_def table_addrs_def three_rule_store_def get_dict_def)
  qed
  show "applied_value add_and_delete_plan
     [(''filter'', [(''INPUT'', [accept_tcp_rule ''22'' 1, accept_tcp_rule ''22'' 2, drop_all_rule 3])])]
   = [(''filter'',
       [(''INPUT'', [accept_tcp_rule ''22'' 1, drop_all_rule 3]),
        (''FORWARD'', [new_FirewallRule ''filter'' ''FORWARD'' ''DROP'' 0 ''-A FORWARD -j DROP''])])]"
    by (simp add: add_and_delete_plan_def applied_value_def sorted_recs_def plan_of_def
        new_OptimizationPlan_def default_drop_recommendation_def delete_recommendation_def
        apply_rec_value_def append_rule_def append_value_def ensure_chain_value_def
        ensure_table_value_def remove_rule_def scenario_rule_defs)
qed

end
